theory Spec2Isabelle
  imports Complex_Main
begin

section \<open>JavaScript values and their string rendering\<close>

text \<open>
  The queue (\<open>src/queue.js\<close>) builds every store key by string concatenation
  (\<open>this._prefix + id\<close>), so the text JavaScript gives a value matters. Task ids are
  numbers (\<open>@param {Number} id\<close>): the reply of the store's atomic increment. A
  JavaScript number that is an integer of magnitude below \<open>10^21\<close> (every value of the
  store's 64-bit counter) is rendered in decimal, with a leading minus sign when negative.
\<close>

definition digit_char :: "nat \<Rightarrow> char" where
  "digit_char d = char_of (48 + d)"

function dec :: "nat \<Rightarrow> string" where
  "dec n = (if n < 10 then [digit_char n] else dec (n div 10) @ [digit_char (n mod 10)])"
  by pat_completeness auto
termination
  by (relation "measure id") auto

declare dec.simps [simp del]

definition js_string_of_int :: "int \<Rightarrow> string" where
  "js_string_of_int i = (if i < 0 then CHR ''-'' # dec (nat (- i)) else dec (nat i))"

text \<open>
  The values that travel between the queue, its callers and the store client: replies of
  the store, task ids and task data. A record of task data is a flat object of string
  fields. Functions are kept apart (see \<open>handler_arg\<close> below).
\<close>

datatype jsval =
    Undefined
  | Null
  | JNum int
  | JStr string
  | JArr "jsval list"
  | JObj "(string \<times> string) list"
  | JErr string

fun join_comma :: "string list \<Rightarrow> string" where
  "join_comma [] = []"
| "join_comma [s] = s"
| "join_comma (s # t # ts) = s @ '','' @ join_comma (t # ts)"

text \<open>\<open>'' + v\<close>: the text of a value when it is concatenated to a string.\<close>

fun js_to_string :: "jsval \<Rightarrow> string" where
  "js_to_string Undefined = ''undefined''"
| "js_to_string Null = ''null''"
| "js_to_string (JNum i) = js_string_of_int i"
| "js_to_string (JStr s) = s"
| "js_to_string (JArr vs) =
     join_comma (map (\<lambda>v. if v = Undefined \<or> v = Null then [] else js_to_string v) vs)"
| "js_to_string (JObj fs) = ''[object Object]''"
| "js_to_string (JErr m) = ''Error: '' @ m"

section \<open>Keyspace layout\<close>

text \<open>
  The constructor \<open>Rq(queueName, options)\<close>: host and port default when the option is
  missing or falsy, the lock token is a fresh random uuid (a parameter here), the prefix
  is \<open>'rq:' + queueName + ':'\<close> and the four fixed keys hang off the prefix.
\<close>

record rq_options =
  opt_host :: "string option"
  opt_port :: "nat option"
  opt_retry :: "nat option"

record rq_keys =
  key_id :: string
  key_waiting :: string
  key_working :: string
  key_completed :: string

record rq =
  host :: string
  port :: nat
  queue :: string
  retries :: nat
  lockToken :: string
  prefix :: string
  keys :: rq_keys

definition mk_prefix :: "string \<Rightarrow> string" where
  "mk_prefix queueName = ''rq:'' @ queueName @ '':''"

definition Rq :: "string \<Rightarrow> rq_options \<Rightarrow> string \<Rightarrow> rq" where
  "Rq queueName options uuid =
     \<lparr> host = (case opt_host options of Some h \<Rightarrow> if h = [] then ''127.0.0.1'' else h
                                        | None \<Rightarrow> ''127.0.0.1''),
       port = (case opt_port options of Some p \<Rightarrow> if p = 0 then 6327 else p | None \<Rightarrow> 6327),
       queue = queueName,
       retries = (case opt_retry options of Some r \<Rightarrow> r | None \<Rightarrow> 0),
       lockToken = uuid,
       prefix = mk_prefix queueName,
       keys = \<lparr> key_id = mk_prefix queueName @ ''id'',
                key_waiting = mk_prefix queueName @ ''waiting'',
                key_working = mk_prefix queueName @ ''working'',
                key_completed = mk_prefix queueName @ ''completed'' \<rparr> \<rparr>"

text \<open>\<open>Rq.prototype.getKeyForId\<close>: \<open>this._prefix + id\<close>.\<close>

definition getKeyForId :: "rq \<Rightarrow> jsval \<Rightarrow> string" where
  "getKeyForId self ident = prefix self @ js_to_string ident"

text \<open>The lock key, as \<open>lock\<close> and \<open>unlock\<close> both build it: \<open>this.getKeyForId(id) + ':lock'\<close>.\<close>

definition lockKeyFor :: "rq \<Rightarrow> jsval \<Rightarrow> string" where
  "lockKeyFor self ident = getKeyForId self ident @ '':lock''"

text \<open>Every key a queue of a given name derives for numeric task ids.\<close>

definition fixed_keys :: "rq \<Rightarrow> string set" where
  "fixed_keys self = {key_id (keys self), key_waiting (keys self),
                      key_working (keys self), key_completed (keys self)}"

definition derived_keys :: "rq \<Rightarrow> string set" where
  "derived_keys self =
     fixed_keys self \<union> range (\<lambda>i. getKeyForId self (JNum i)) \<union> range (\<lambda>i. lockKeyFor self (JNum i))"


section \<open>The key-value store\<close>

text \<open>
  Modelled from the spec: the remote key-value store is an external collaborator; the
  sources hold only the commands the queue sends to it. The model below gives each
  command the meaning section 6 of the specification lists (atomic increment, atomic
  batch, blocking pop-and-push, set with expiry and optional only-if-absent, scripted
  compare-and-delete, hash write and read) over one keyspace of typed values. A command
  applied to a key holding a value of another type is answered with an error and
  changes nothing.
\<close>

datatype rvalue =
    RStr string "nat option"
  | RList "string list"
  | RHash "(string \<times> string) list"

type_synonym store = "string \<Rightarrow> rvalue option"

datatype set_opt = PX nat | NX

datatype batch_cmd =
    LPUSH string string
  | HMSET string "(string \<times> string) list"

text \<open>
  The script \<open>unlock\<close> sends, as a syntax tree. Its text in the source is
  \<^verbatim>\<open>if redis.call("get",KEYS[1]) == ARGV[1] then return redis.call("del", KEYS[1]) else return 0 end\<close>
\<close>

datatype lua_val = LvNil | LvBool bool | LvNum int | LvStr string

datatype lua_exp =
    LKEYS nat
  | LARGV nat
  | LNum int
  | LCall string lua_exp
  | LEq lua_exp lua_exp

datatype lua_stmt =
    LIf lua_exp lua_stmt lua_stmt
  | LReturn lua_exp

datatype command =
    INCR string
  | MULTI "batch_cmd list"
  | BRPOPLPUSH string string nat
  | SET string string "set_opt list"
  | HGETALL string
  | EVAL lua_stmt nat "string list"

datatype jserror =
    CouldNotLock jsval
  | StoreError string
  | TypeError string

text \<open>
  What a node-style callback \<open>function(err, res)\<close> receives: an error (and no
  result), or no error and a result.
\<close>

datatype reply = Failed jserror | Done jsval

fun err_of :: "reply \<Rightarrow> jserror option" where
  "err_of (Failed e) = Some e"
| "err_of (Done v) = None"

fun res_of :: "reply \<Rightarrow> jsval" where
  "res_of (Failed e) = Undefined"
| "res_of (Done v) = v"

definition wrongtype :: reply where
  "wrongtype = Failed (StoreError ''WRONGTYPE Operation against a key holding the wrong kind of value'')"

subsection \<open>Integers stored as strings\<close>

definition digit_val :: "char \<Rightarrow> nat" where
  "digit_val c = of_char c - 48"

definition undec :: "string \<Rightarrow> nat" where
  "undec s = foldl (\<lambda>a c. 10 * a + digit_val c) 0 s"

text \<open>
  A stored string counts as an integer only in canonical decimal form and within the
  signed 64-bit range.
\<close>

definition parse_int :: "string \<Rightarrow> int option" where
  "parse_int s =
     (let v = (case s of [] \<Rightarrow> 0
                 | c # cs \<Rightarrow> if c = CHR ''-'' then - int (undec cs) else int (undec s))
      in if js_string_of_int v = s \<and> - (2 ^ 63) \<le> v \<and> v < 2 ^ 63 then Some v else None)"

definition exec_incr :: "string \<Rightarrow> store \<Rightarrow> store \<times> reply" where
  "exec_incr k s =
     (case s k of
        None \<Rightarrow> (s(k \<mapsto> RStr ''1'' None), Done (JNum 1))
      | Some (RStr v ttl) \<Rightarrow>
          (case parse_int v of
             None \<Rightarrow> (s, Failed (StoreError ''ERR value is not an integer or out of range''))
           | Some n \<Rightarrow>
               if n + 1 < 2 ^ 63
               then (s(k \<mapsto> RStr (js_string_of_int (n + 1)) ttl), Done (JNum (n + 1)))
               else (s, Failed (StoreError ''ERR increment or decrement would overflow'')))
      | Some _ \<Rightarrow> (s, wrongtype))"

subsection \<open>Set with expiry\<close>

text \<open>
  The expiry is stored with the value. The passage of time, and so the removal of an
  expired key, is not part of the model: a key that is present has not expired.
\<close>

fun px_of :: "set_opt list \<Rightarrow> nat option" where
  "px_of [] = None"
| "px_of (PX t # os) = Some t"
| "px_of (NX # os) = px_of os"

definition exec_set :: "string \<Rightarrow> string \<Rightarrow> set_opt list \<Rightarrow> store \<Rightarrow> store \<times> reply" where
  "exec_set k v opts s =
     (if NX \<in> set opts \<and> s k \<noteq> None then (s, Done Null)
      else (s(k \<mapsto> RStr v (px_of opts)), Done (JStr ''OK'')))"

subsection \<open>Lists and hashes\<close>

fun hset :: "string \<times> string \<Rightarrow> (string \<times> string) list \<Rightarrow> (string \<times> string) list" where
  "hset (f, v) [] = [(f, v)]"
| "hset (f, v) ((g, u) # h) = (if f = g then (g, v) # h else (g, u) # hset (f, v) h)"

fun batch_malformed :: "batch_cmd \<Rightarrow> bool" where
  "batch_malformed (LPUSH k v) = False"
| "batch_malformed (HMSET k fs) = (fs = [])"

fun exec_batch_cmd :: "batch_cmd \<Rightarrow> store \<Rightarrow> store \<times> jsval" where
  "exec_batch_cmd (LPUSH k v) s =
     (case s k of
        None \<Rightarrow> (s(k \<mapsto> RList [v]), JNum 1)
      | Some (RList xs) \<Rightarrow> (s(k \<mapsto> RList (v # xs)), JNum (1 + int (length xs)))
      | Some _ \<Rightarrow> (s, JErr ''WRONGTYPE''))"
| "exec_batch_cmd (HMSET k fs) s =
     (case s k of
        None \<Rightarrow> (s(k \<mapsto> RHash (fold hset fs [])), JStr ''OK'')
      | Some (RHash h) \<Rightarrow> (s(k \<mapsto> RHash (fold hset fs h)), JStr ''OK'')
      | Some _ \<Rightarrow> (s, JErr ''WRONGTYPE''))"

fun exec_batch :: "batch_cmd list \<Rightarrow> store \<Rightarrow> store \<times> jsval list" where
  "exec_batch [] s = (s, [])"
| "exec_batch (c # cs) s =
     (case exec_batch_cmd c s of
        (s1, r) \<Rightarrow> (case exec_batch cs s1 of (s2, rs) \<Rightarrow> (s2, r # rs)))"

text \<open>
  A batch runs as one step of the store. A command rejected when it is queued (a hash
  write without fields) discards the whole batch; a command that fails while the batch
  runs leaves its error in the reply list, and the other commands still take effect.
\<close>

definition exec_multi :: "batch_cmd list \<Rightarrow> store \<Rightarrow> store \<times> reply" where
  "exec_multi cs s =
     (if list_ex batch_malformed cs
      then (s, Failed (StoreError ''EXECABORT Transaction discarded because of previous errors''))
      else (case exec_batch cs s of (s1, rs) \<Rightarrow> (s1, Done (JArr rs))))"

text \<open>
  The blocking move takes the last element of the source list and puts it in front of
  the destination list. On an absent (empty) source it does not answer: the result is
  \<open>None\<close>, the request stays outstanding.
\<close>

definition exec_brpoplpush :: "string \<Rightarrow> string \<Rightarrow> store \<Rightarrow> (store \<times> reply) option" where
  "exec_brpoplpush src dst s =
     (case s src of
        None \<Rightarrow> None
      | Some (RList xs) \<Rightarrow>
          (if xs = [] then None
           else let v = last xs;
                    s1 = (if butlast xs = [] then s(src := None) else s(src \<mapsto> RList (butlast xs)))
                in (case s1 dst of
                      None \<Rightarrow> Some (s1(dst \<mapsto> RList [v]), Done (JStr v))
                    | Some (RList ys) \<Rightarrow> Some (s1(dst \<mapsto> RList (v # ys)), Done (JStr v))
                    | Some _ \<Rightarrow> Some (s, wrongtype)))
      | Some _ \<Rightarrow> Some (s, wrongtype))"

definition exec_hgetall :: "string \<Rightarrow> store \<Rightarrow> store \<times> reply" where
  "exec_hgetall k s =
     (case s k of
        None \<Rightarrow> (s, Done Null)
      | Some (RHash h) \<Rightarrow> (s, Done (JObj h))
      | Some _ \<Rightarrow> (s, wrongtype))"

subsection \<open>Scripts\<close>

definition lua_index :: "string list \<Rightarrow> nat \<Rightarrow> lua_val" where
  "lua_index xs i = (if 1 \<le> i \<and> i \<le> length xs then LvStr (xs ! (i - 1)) else LvNil)"

text \<open>
  \<open>redis.call\<close> from a script: \<open>get\<close> gives the string at the key, \<open>false\<close> when the
  key is absent, and raises on a key of another type; \<open>del\<close> removes the key and gives
  the number of keys removed. \<open>None\<close> is a raised error.
\<close>

fun redis_call :: "string \<Rightarrow> lua_val \<Rightarrow> store \<Rightarrow> (store \<times> lua_val) option" where
  "redis_call name (LvStr k) s =
     (if name = ''get'' then
        (case s k of
           None \<Rightarrow> Some (s, LvBool False)
         | Some (RStr v ttl) \<Rightarrow> Some (s, LvStr v)
         | Some _ \<Rightarrow> None)
      else if name = ''del'' then
        (case s k of
           None \<Rightarrow> Some (s, LvNum 0)
         | Some _ \<Rightarrow> Some (s(k := None), LvNum 1))
      else None)"
| "redis_call name v s = None"

fun lua_eval :: "string list \<Rightarrow> string list \<Rightarrow> lua_exp \<Rightarrow> store \<Rightarrow> (store \<times> lua_val) option" where
  "lua_eval ks as (LKEYS i) s = Some (s, lua_index ks i)"
| "lua_eval ks as (LARGV i) s = Some (s, lua_index as i)"
| "lua_eval ks as (LNum n) s = Some (s, LvNum n)"
| "lua_eval ks as (LCall name e) s =
     (case lua_eval ks as e s of
        None \<Rightarrow> None
      | Some (s1, v) \<Rightarrow> redis_call name v s1)"
| "lua_eval ks as (LEq a b) s =
     (case lua_eval ks as a s of
        None \<Rightarrow> None
      | Some (s1, va) \<Rightarrow>
          (case lua_eval ks as b s1 of
             None \<Rightarrow> None
           | Some (s2, vb) \<Rightarrow> Some (s2, LvBool (va = vb))))"

definition lua_truthy :: "lua_val \<Rightarrow> bool" where
  "lua_truthy v = (v \<noteq> LvNil \<and> v \<noteq> LvBool False)"

fun lua_exec :: "string list \<Rightarrow> string list \<Rightarrow> lua_stmt \<Rightarrow> store \<Rightarrow> (store \<times> lua_val) option" where
  "lua_exec ks as (LIf c t e) s =
     (case lua_eval ks as c s of
        None \<Rightarrow> None
      | Some (s1, v) \<Rightarrow> if lua_truthy v then lua_exec ks as t s1 else lua_exec ks as e s1)"
| "lua_exec ks as (LReturn e) s = lua_eval ks as e s"

fun lua_to_js :: "lua_val \<Rightarrow> jsval" where
  "lua_to_js LvNil = Null"
| "lua_to_js (LvBool b) = (if b then JNum 1 else Null)"
| "lua_to_js (LvNum n) = JNum n"
| "lua_to_js (LvStr s) = JStr s"

definition exec_eval :: "lua_stmt \<Rightarrow> nat \<Rightarrow> string list \<Rightarrow> store \<Rightarrow> store \<times> reply" where
  "exec_eval script numkeys args s =
     (case lua_exec (take numkeys args) (drop numkeys args) script s of
        None \<Rightarrow> (s, Failed (StoreError ''ERR Error running script''))
      | Some (s1, v) \<Rightarrow> (s1, Done (lua_to_js v)))"

text \<open>One command, one atomic step of the store.\<close>

fun exec :: "command \<Rightarrow> store \<Rightarrow> (store \<times> reply) option" where
  "exec (INCR k) s = Some (exec_incr k s)"
| "exec (MULTI cs) s = Some (exec_multi cs s)"
| "exec (BRPOPLPUSH src dst timeout) s = exec_brpoplpush src dst s"
| "exec (SET k v opts) s = Some (exec_set k v opts s)"
| "exec (HGETALL k) s = Some (exec_hgetall k s)"
| "exec (EVAL script numkeys args) s = Some (exec_eval script numkeys args s)"


section \<open>The queue instance and its event loop\<close>

text \<open>
  Modelled from the spec: \<open>src/task.js\<close> is not among the sources. A Task carries the
  id and the data it was claimed with (its back-reference to the queue is only used to
  signal completion, which no function below needs).
\<close>

record task =
  task_id :: jsval
  task_data :: jsval

text \<open>
  The functions the queue hands to the store client and to the timer are closures; each
  is a constructor here, holding what the closure captures.
  \<^item> \<open>K_none\<close>: the no-op that stands in for a missing callback;
  \<^item> \<open>K_user n\<close>: the callback \<open>n\<close> a caller supplied;
  \<^item> \<open>K_lock_set id cb\<close>: the function \<open>lock\<close> passes to \<open>_nbclient.set\<close>;
  \<^item> \<open>K_enqueue_incr data cb\<close>, \<open>K_enqueue_exec cb\<close>: the two steps of the waterfall
    in \<open>enqueue\<close>, the second one followed by its final function;
  \<^item> \<open>K_dequeue_pop h\<close>, \<open>K_dequeue_locked h id\<close>, \<open>K_dequeue_loaded h id\<close>: the
    steps of the waterfall in \<open>dequeue\<close> for the handler \<open>h\<close>.
\<close>

datatype cont =
    K_none
  | K_user nat
  | K_lock_set jsval cont
  | K_enqueue_incr "(string \<times> string) list" cont
  | K_enqueue_exec cont
  | K_dequeue_pop nat
  | K_dequeue_locked nat jsval
  | K_dequeue_loaded nat jsval

text \<open>
  Modelled from the spec: \<open>utils.optCallback\<close> (\<open>src/utils.js\<close> is not among the
  sources) turns a missing callback into a no-op.
\<close>

definition optCallback :: "cont option \<Rightarrow> cont" where
  "optCallback callback = (case callback of None \<Rightarrow> K_none | Some k \<Rightarrow> k)"

text \<open>
  Modelled from the spec: \<open>QueueErrors.couldNotLock\<close> (\<open>src/errors.js\<close> is not among
  the sources) builds the "could not lock" error for a task id.
\<close>

definition couldNotLock :: "jsval \<Rightarrow> jserror" where
  "couldNotLock ident = CouldNotLock ident"

text \<open>What an observer of the instance sees, in order.\<close>

datatype obs =
    Emitted_error jserror
  | Called nat reply
  | Handled nat task

text \<open>
  The instance with the part of the runtime it lives in: its single \<open>lockTimeout\<close>
  field (a timer handle, or undefined), the timers that are pending (handle, delay in
  milliseconds, and the id the timer's function \<open>self.lock(id, true)\<close> captures), the
  requests outstanding on each of its two store connections with their callbacks, oldest
  first, the store, and what has been observed so far. \<open>lockTime\<close> is
  \<open>config.lockTime\<close> (the configuration file is not among the sources).
\<close>

record world =
  self :: rq
  lockTime :: nat
  lockTimeout :: "nat option"
  handler_slot :: "nat option"
  timers :: "(nat \<times> rat \<times> jsval) list"
  next_timer :: nat
  nbclient :: "(command \<times> cont) list"
  bclient :: "(command \<times> cont) list"
  db :: store
  trace :: "obs list"

definition new_world :: "rq \<Rightarrow> nat \<Rightarrow> store \<Rightarrow> world" where
  "new_world q t s =
     \<lparr> self = q, lockTime = t, lockTimeout = None, handler_slot = None, timers = [],
       next_timer = 0, nbclient = [], bclient = [], db = s, trace = [] \<rparr>"

definition clearTimeout :: "nat option \<Rightarrow> world \<Rightarrow> world" where
  "clearTimeout handle w =
     (case handle of
        None \<Rightarrow> w
      | Some h \<Rightarrow> w\<lparr>timers := filter (\<lambda>t. fst t \<noteq> h) (timers w)\<rparr>)"

definition setTimeout :: "jsval \<Rightarrow> rat \<Rightarrow> world \<Rightarrow> nat \<times> world" where
  "setTimeout ident delay w =
     (next_timer w,
      w\<lparr>timers := timers w @ [(next_timer w, delay, ident)], next_timer := next_timer w + 1\<rparr>)"

text \<open>
  \<open>self.emit('error', err)\<close>: the notification is recorded in the observations (a
  listener for \<open>error\<close> is taken to be registered on the instance).
\<close>

definition emit_error :: "jserror \<Rightarrow> world \<Rightarrow> world" where
  "emit_error e w = w\<lparr>trace := trace w @ [Emitted_error e]\<rparr>"

definition send_nb :: "command \<Rightarrow> cont \<Rightarrow> world \<Rightarrow> world" where
  "send_nb c k w = w\<lparr>nbclient := nbclient w @ [(c, k)]\<rparr>"

definition send_b :: "command \<Rightarrow> cont \<Rightarrow> world \<Rightarrow> world" where
  "send_b c k w = w\<lparr>bclient := bclient w @ [(c, k)]\<rparr>"

text \<open>\<open>Rq.prototype._isLocked\<close>: \<open>response === 'OK'\<close>.\<close>

definition isLocked :: "jsval \<Rightarrow> bool" where
  "isLocked response = (response = JStr ''OK'')"

text \<open>
  \<open>Rq.prototype.lock\<close>. The arguments of the set are the key, the token, \<open>'PX'\<close> with
  \<open>config.lockTime\<close>, and \<open>'NX'\<close> pushed after them unless \<open>renew\<close>. The pending
  timer is cleared before the request is sent; what happens on the reply is
  \<open>K_lock_set\<close> in \<open>invoke\<close> below.
\<close>

definition lock_args :: "world \<Rightarrow> bool \<Rightarrow> set_opt list" where
  "lock_args w renew = [PX (lockTime w)] @ (if \<not> renew then [NX] else [])"

definition lock :: "jsval \<Rightarrow> bool \<Rightarrow> cont option \<Rightarrow> world \<Rightarrow> world" where
  "lock ident renew callback w =
     (let key = lockKeyFor (self w) ident;
          cb = optCallback callback;
          w1 = clearTimeout (lockTimeout w) w
      in send_nb (SET key (lockToken (self w)) (lock_args w renew)) (K_lock_set ident cb) w1)"

definition unlock_script :: lua_stmt where
  "unlock_script =
     LIf (LEq (LCall ''get'' (LKEYS 1)) (LARGV 1))
         (LReturn (LCall ''del'' (LKEYS 1)))
         (LReturn (LNum 0))"

text \<open>
  \<open>Rq.prototype.unlock\<close>: clear the timer in \<open>lockTimeout\<close>, then send the script with
  one key (the lock key) and one argument (the token); the caller's callback is the
  client's callback.
\<close>

definition unlock :: "jsval \<Rightarrow> cont option \<Rightarrow> world \<Rightarrow> world" where
  "unlock ident callback w =
     (let cb = optCallback callback;
          w1 = clearTimeout (lockTimeout w) w
      in send_nb (EVAL unlock_script 1 [lockKeyFor (self w) ident, lockToken (self w)]) cb w1)"

text \<open>
  \<open>Rq.prototype.enqueue\<close>: the waterfall starts with the increment of the id key.
\<close>

definition enqueue :: "(string \<times> string) list \<Rightarrow> cont option \<Rightarrow> world \<Rightarrow> world" where
  "enqueue data callback w =
     send_nb (INCR (key_id (keys (self w)))) (K_enqueue_incr data (optCallback callback)) w"

text \<open>The batch of the second step: \<open>multi().lpush(waiting, id).hmset(getKeyForId(id), data)\<close>.\<close>

definition enqueue_batch :: "rq \<Rightarrow> jsval \<Rightarrow> (string \<times> string) list \<Rightarrow> command" where
  "enqueue_batch q ident data =
     MULTI [LPUSH (key_waiting (keys q)) (js_to_string ident), HMSET (getKeyForId q ident) data]"

text \<open>
  A value that may be passed as \<open>handler\<close>: a function (known by a number), or any other
  value.
\<close>

datatype handler_arg = Fn nat | NotFn jsval

text \<open>
  \<open>Rq.prototype.dequeue\<close>. The result is the error thrown to the caller, if any, and the
  world after the call.
\<close>

definition dequeue :: "handler_arg \<Rightarrow> world \<Rightarrow> jserror option \<times> world" where
  "dequeue handler w =
     (case handler of
        NotFn v \<Rightarrow> (Some (TypeError ''handler must be a function''), w)
      | Fn h \<Rightarrow>
          (None,
           send_b (BRPOPLPUSH (key_waiting (keys (self w))) (key_working (keys (self w))) 0)
                  (K_dequeue_pop h)
                  (w\<lparr>handler_slot := Some h\<rparr>)))"

text \<open>
  The final function of the waterfall in \<open>dequeue\<close>: it gets an error, or no error and
  the task.
\<close>

definition dequeue_final :: "nat \<Rightarrow> jserror + task \<Rightarrow> world \<Rightarrow> world" where
  "dequeue_final h outcome w =
     (case outcome of
        Inl e \<Rightarrow> emit_error e w
      | Inr t \<Rightarrow> w\<lparr>trace := trace w @ [Handled h t]\<rparr>)"

text \<open>
  Running a callback on a reply. A waterfall (\<open>async.waterfall\<close>) passes the result of
  a step to the next step, and goes to its final function as soon as a step reports an
  error; the next step is run here in the same transition as the callback that leads to
  it.
\<close>

fun invoke :: "cont \<Rightarrow> reply \<Rightarrow> world \<Rightarrow> world" where
  "invoke K_none r w = w"
| "invoke (K_user n) r w = w\<lparr>trace := trace w @ [Called n r]\<rparr>"
| "invoke (K_lock_set ident cb) r w =
     (let w1 = (if isLocked (res_of r)
                then (case setTimeout ident (of_nat (lockTime w) / 2) w of
                        (h, w') \<Rightarrow> w'\<lparr>lockTimeout := Some h\<rparr>)
                else emit_error (couldNotLock ident) w)
      in invoke cb r w1)"
| "invoke (K_enqueue_incr data cb) r w =
     (case r of
        Failed e \<Rightarrow> invoke cb r (emit_error e w)
      | Done ident \<Rightarrow> send_nb (enqueue_batch (self w) ident data) (K_enqueue_exec cb) w)"
| "invoke (K_enqueue_exec cb) r w =
     (case r of
        Failed e \<Rightarrow> invoke cb r (emit_error e w)
      | Done result \<Rightarrow> invoke cb r w)"
| "invoke (K_dequeue_pop h) r w =
     (case r of
        Failed e \<Rightarrow> dequeue_final h (Inl e) w
      | Done ident \<Rightarrow> lock ident False (Some (K_dequeue_locked h ident)) w)"
| "invoke (K_dequeue_locked h taskId) r w =
     (case r of
        Failed e \<Rightarrow> dequeue_final h (Inl e) w
      | Done result \<Rightarrow>
          if isLocked result
          then send_nb (HGETALL (getKeyForId (self w) taskId)) (K_dequeue_loaded h taskId) w
          else dequeue_final h (Inl (couldNotLock taskId)) w)"
| "invoke (K_dequeue_loaded h taskId) r w =
     (case r of
        Failed e \<Rightarrow> dequeue_final h (Inl e) w
      | Done data \<Rightarrow> dequeue_final h (Inr \<lparr>task_id = taskId, task_data = data\<rparr>) w)"


subsection \<open>Transitions\<close>

text \<open>
  The oldest outstanding request of a connection is answered: its callback runs on the
  reply. \<open>reply_nb\<close> and \<open>reply_b\<close> take the reply as given; \<open>serve_nb\<close> and
  \<open>serve_b\<close> let the store execute the command and answer. A blocked command stays
  outstanding.
\<close>

definition reply_nb :: "reply \<Rightarrow> world \<Rightarrow> world" where
  "reply_nb r w =
     (case nbclient w of
        [] \<Rightarrow> w
      | (c, k) # rest \<Rightarrow> invoke k r (w\<lparr>nbclient := rest\<rparr>))"

definition reply_b :: "reply \<Rightarrow> world \<Rightarrow> world" where
  "reply_b r w =
     (case bclient w of
        [] \<Rightarrow> w
      | (c, k) # rest \<Rightarrow> invoke k r (w\<lparr>bclient := rest\<rparr>))"

definition serve_nb :: "world \<Rightarrow> world" where
  "serve_nb w =
     (case nbclient w of
        [] \<Rightarrow> w
      | (c, k) # rest \<Rightarrow>
          (case exec c (db w) of
             None \<Rightarrow> w
           | Some (s, r) \<Rightarrow> reply_nb r (w\<lparr>db := s\<rparr>)))"

definition serve_b :: "world \<Rightarrow> world" where
  "serve_b w =
     (case bclient w of
        [] \<Rightarrow> w
      | (c, k) # rest \<Rightarrow>
          (case exec c (db w) of
             None \<Rightarrow> w
           | Some (s, r) \<Rightarrow> reply_b r (w\<lparr>db := s\<rparr>)))"

text \<open>
  A pending timer fires: it is no longer pending, and its function calls
  \<open>self.lock(id, true)\<close> without a callback.
\<close>

definition fire :: "nat \<Rightarrow> world \<Rightarrow> world" where
  "fire h w =
     (case find (\<lambda>t. fst t = h) (timers w) of
        None \<Rightarrow> w
      | Some (h', delay, ident) \<Rightarrow>
          lock ident True None (w\<lparr>timers := filter (\<lambda>t. fst t \<noteq> h) (timers w)\<rparr>))"

text \<open>
  What can happen to an instance: a caller calls one of its methods, a connection
  delivers the answer of the store or an error in its place, a timer fires, or another
  client of the store runs a command. Requests of one connection are answered in the
  order they were sent. The delay of a timer is kept with it; which of the pending timers
  fires next is not restricted.
\<close>

datatype event =
    Call_enqueue "(string \<times> string) list" "nat option"
  | Call_dequeue handler_arg
  | Call_lock jsval bool "nat option"
  | Call_unlock jsval "nat option"
  | Nb_served
  | Nb_failed jserror
  | B_served
  | B_failed jserror
  | Fire nat
  | Foreign command

fun step :: "event \<Rightarrow> world \<Rightarrow> world" where
  "step (Call_enqueue data cb) w = enqueue data (map_option K_user cb) w"
| "step (Call_dequeue handler) w = snd (dequeue handler w)"
| "step (Call_lock ident renew cb) w = lock ident renew (map_option K_user cb) w"
| "step (Call_unlock ident cb) w = unlock ident (map_option K_user cb) w"
| "step Nb_served w = serve_nb w"
| "step (Nb_failed e) w = reply_nb (Failed e) w"
| "step B_served w = serve_b w"
| "step (B_failed e) w = reply_b (Failed e) w"
| "step (Fire h) w = fire h w"
| "step (Foreign c) w = (case exec c (db w) of None \<Rightarrow> w | Some (s, r) \<Rightarrow> w\<lparr>db := s\<rparr>)"

definition run :: "event list \<Rightarrow> world \<Rightarrow> world" where
  "run es w = fold step es w"


section \<open>Notions used to state the properties\<close>

subsection \<open>Keys\<close>

definition is_digit :: "char \<Rightarrow> bool" where
  "is_digit c = (48 \<le> (of_char c :: nat) \<and> (of_char c :: nat) \<le> 57)"

definition is_numchar :: "char \<Rightarrow> bool" where
  "is_numchar c = (is_digit c \<or> c = CHR ''-'')"

text \<open>What follows the prefix in the keys a queue derives.\<close>

definition suffixes :: "string set" where
  "suffixes = {''id'', ''waiting'', ''working'', ''completed''}
     \<union> range js_string_of_int \<union> range (\<lambda>i. js_string_of_int i @ '':lock'')"

subsection \<open>The callbacks the methods register\<close>

fun plain_cb :: "cont \<Rightarrow> bool" where
  "plain_cb K_none = True"
| "plain_cb (K_user n) = True"
| "plain_cb k = False"

text \<open>The callbacks the methods of the queue put on each connection.\<close>

fun wf_nb_cont :: "cont \<Rightarrow> bool" where
  "wf_nb_cont K_none = True"
| "wf_nb_cont (K_user n) = True"
| "wf_nb_cont (K_lock_set ident (K_dequeue_locked h taskId)) = True"
| "wf_nb_cont (K_lock_set ident cb) = plain_cb cb"
| "wf_nb_cont (K_enqueue_incr data cb) = plain_cb cb"
| "wf_nb_cont (K_enqueue_exec cb) = plain_cb cb"
| "wf_nb_cont (K_dequeue_loaded h taskId) = True"
| "wf_nb_cont k = False"

fun wf_b_cont :: "cont \<Rightarrow> bool" where
  "wf_b_cont (K_dequeue_pop h) = True"
| "wf_b_cont k = False"

subsection \<open>Published tasks\<close>

text \<open>
  The ids on the waiting list of a queue, the record stored for an id, and the value of
  the id counter (0 while the key is free, nothing when the key holds no integer).
\<close>

definition waiting_ids :: "rq \<Rightarrow> store \<Rightarrow> string list" where
  "waiting_ids q s = (case s (key_waiting (keys q)) of Some (RList xs) \<Rightarrow> xs | _ \<Rightarrow> [])"

definition record_of :: "rq \<Rightarrow> string \<Rightarrow> store \<Rightarrow> (string \<times> string) list option" where
  "record_of q t s = (case s (prefix q @ t) of Some (RHash h) \<Rightarrow> Some h | _ \<Rightarrow> None)"

definition id_counter :: "rq \<Rightarrow> store \<Rightarrow> int option" where
  "id_counter q s =
     (case s (key_id (keys q)) of
        None \<Rightarrow> Some 0
      | Some (RStr v ttl) \<Rightarrow> parse_int v
      | Some _ \<Rightarrow> None)"

definition batch_succeeded :: "jsval list \<Rightarrow> bool" where
  "batch_succeeded rs = list_all (\<lambda>r. case r of JErr m \<Rightarrow> False | _ \<Rightarrow> True) rs"

text \<open>The texts of the ids the counter has handed out when it stands at \<open>c\<close>.\<close>

definition ids_upto :: "int \<Rightarrow> string set" where
  "ids_upto c = js_string_of_int ` {1..c}"

text \<open>An id that was handed out and has a record with at least one field.\<close>

definition stored :: "rq \<Rightarrow> int \<Rightarrow> store \<Rightarrow> string \<Rightarrow> bool" where
  "stored q c s t = (t \<in> ids_upto c \<and> (\<exists>h. record_of q t s = Some h \<and> h \<noteq> []))"

text \<open>
  The state of the store the consumers rely on, where \<open>c\<close> is the value of the counter
  and \<open>G\<close> holds the ids handed out to enqueue calls whose batch has not run yet:
  every id is on the waiting list at most once, every id on it was handed out and has
  its record, no record exists for an id beyond the counter, and an id in \<open>G\<close> is not
  on the waiting list and has no record yet.
\<close>

definition store_inv :: "rq \<Rightarrow> int \<Rightarrow> string set \<Rightarrow> store \<Rightarrow> bool" where
  "store_inv q c G s =
     (id_counter q s = Some c \<and> 0 \<le> c
      \<and> distinct (waiting_ids q s)
      \<and> (\<forall>t \<in> set (waiting_ids q s). stored q c s t)
      \<and> (\<forall>j. c < j \<longrightarrow> s (getKeyForId q (JNum j)) = None)
      \<and> (\<forall>t \<in> G. t \<in> ids_upto c \<and> t \<notin> set (waiting_ids q s) \<and> s (prefix q @ t) = None))"

text \<open>A step of the store that leaves every record that exists as it is.\<close>

definition keeps_records :: "rq \<Rightarrow> store \<Rightarrow> store \<Rightarrow> bool" where
  "keeps_records q s s' =
     (\<forall>j h. s (getKeyForId q (JNum j)) = Some (RHash h) \<longrightarrow> s' (getKeyForId q (JNum j)) = Some (RHash h))"

subsection \<open>Several instances on one store\<close>

text \<open>
  Any number of instances of the queue (producers and consumers) work on one store.
  An event happens at one instance, which sees the store as it is and leaves it as its
  step makes it.
\<close>

type_synonym system = "store \<times> (nat \<Rightarrow> world)"

fun sys_step :: "nat \<times> event \<Rightarrow> system \<Rightarrow> system" where
  "sys_step (i, e) (s, ws) = (db (step e ((ws i)\<lparr>db := s\<rparr>)), ws(i := step e ((ws i)\<lparr>db := s\<rparr>)))"

definition sys_run :: "(nat \<times> event) list \<Rightarrow> system \<Rightarrow> system" where
  "sys_run es sys = fold sys_step es sys"

fun is_foreign :: "event \<Rightarrow> bool" where
  "is_foreign (Foreign c) = True"
| "is_foreign e = False"

text \<open>The ids of the batches an instance has sent and that have not run yet.\<close>

fun batch_id :: "command \<Rightarrow> string option" where
  "batch_id (MULTI (LPUSH k t # cs)) = Some t"
| "batch_id c = None"

fun pending_ids :: "(command \<times> cont) list \<Rightarrow> string list" where
  "pending_ids [] = []"
| "pending_ids ((c, k) # rs) =
     (case batch_id c of Some t \<Rightarrow> t # pending_ids rs | None \<Rightarrow> pending_ids rs)"

definition all_pending :: "(nat \<Rightarrow> world) \<Rightarrow> string set" where
  "all_pending ws = (\<Union>i. set (pending_ids (nbclient (ws i))))"

text \<open>
  The requests the methods leave outstanding, each with the callback the method
  registers for it: the increment and the batch of \<open>enqueue\<close>, the set of \<open>lock\<close>,
  the script of \<open>unlock\<close> and the read of \<open>dequeue\<close> on the ordinary connection, the
  blocking move of \<open>dequeue\<close> on the other one.
\<close>

fun req_ok :: "rq \<Rightarrow> command \<times> cont \<Rightarrow> bool" where
  "req_ok q (INCR key, k) =
     (key = key_id (keys q) \<and> (\<exists>data cb. k = K_enqueue_incr data cb \<and> plain_cb cb))"
| "req_ok q (MULTI cs, k) =
     ((\<exists>j data. MULTI cs = enqueue_batch q (JNum j) data) \<and> (\<exists>cb. k = K_enqueue_exec cb \<and> plain_cb cb))"
| "req_ok q (SET key v opts, k) =
     ((\<exists>x. key = prefix q @ x @ '':lock'')
      \<and> (\<exists>ident cb. k = K_lock_set ident cb \<and> (plain_cb cb \<or> (\<exists>h t. cb = K_dequeue_locked h t))))"
| "req_ok q (EVAL script numkeys args, k) =
     (script = unlock_script \<and> numkeys = 1 \<and> (\<exists>x v. args = [prefix q @ x @ '':lock'', v]) \<and> plain_cb k)"
| "req_ok q (HGETALL key, k) = (\<exists>h t. k = K_dequeue_loaded h t \<and> key = getKeyForId q t)"
| "req_ok q (BRPOPLPUSH src dst timeout, k) = False"

fun breq_ok :: "rq \<Rightarrow> command \<times> cont \<Rightarrow> bool" where
  "breq_ok q (BRPOPLPUSH src dst timeout, k) =
     (src = key_waiting (keys q) \<and> dst = key_working (keys q) \<and> (\<exists>h. k = K_dequeue_pop h))"
| "breq_ok q (c, k) = False"

text \<open>The task a callback of the dequeue pipeline has claimed.\<close>

fun claim_of :: "cont \<Rightarrow> jsval option" where
  "claim_of (K_lock_set ident (K_dequeue_locked h t)) = Some t"
| "claim_of (K_dequeue_loaded h t) = Some t"
| "claim_of k = None"

definition claim_ok :: "rq \<Rightarrow> int \<Rightarrow> store \<Rightarrow> command \<times> cont \<Rightarrow> bool" where
  "claim_ok q c s p =
     (case claim_of (snd p) of
        None \<Rightarrow> True
      | Some t \<Rightarrow> (\<exists>u. t = JStr u \<and> stored q c s u))"

text \<open>A task given to a handler carries the record stored for its id.\<close>

definition handled_ok :: "rq \<Rightarrow> int \<Rightarrow> store \<Rightarrow> obs \<Rightarrow> bool" where
  "handled_ok q c s ob =
     (case ob of
        Handled h t \<Rightarrow>
          (\<exists>u rec. task_id t = JStr u \<and> task_data t = JObj rec \<and> rec \<noteq> []
                    \<and> u \<in> ids_upto c \<and> record_of q u s = Some rec)
      | _ \<Rightarrow> True)"

text \<open>
  What holds of an instance of the queue \<open>q\<close> by itself: it derives the keys of
  \<open>q\<close>, its outstanding requests are those of the methods, and no id is in two of its
  batches.
\<close>

definition local_ok :: "rq \<Rightarrow> world \<Rightarrow> bool" where
  "local_ok q w =
     (keys (self w) = keys q \<and> prefix (self w) = prefix q
      \<and> list_all (req_ok q) (nbclient w)
      \<and> list_all (breq_ok q) (bclient w)
      \<and> distinct (pending_ids (nbclient w)))"

text \<open>
  What holds of the instances and the store together: the store is as the consumers
  need it, with the ids of all batches that have not run yet; no id is in the batches
  of two instances; every task a pipeline has claimed has its record, and every task a
  handler was given carries the record of its id.
\<close>

definition sys_inv :: "rq \<Rightarrow> system \<Rightarrow> bool" where
  "sys_inv q sys =
     (case sys of (s, ws) \<Rightarrow>
        (\<exists>c. store_inv q c (all_pending ws) s
             \<and> (\<forall>i. list_all (claim_ok q c s) (nbclient (ws i)))
             \<and> (\<forall>i. list_all (handled_ok q c s) (trace (ws i))))
        \<and> (\<forall>i. local_ok q (ws i))
        \<and> (\<forall>i j. i \<noteq> j \<longrightarrow>
              set (pending_ids (nbclient (ws i))) \<inter> set (pending_ids (nbclient (ws j))) = {}))"

subsection \<open>One run of the dequeue pipeline\<close>

text \<open>
  \<open>dequeue\<close> is called with the function \<open>h\<close>; the blocking move is answered with
  \<open>r1\<close>, then the set of the lock with \<open>r2\<close>, then the read of the record with
  \<open>r3\<close> (an answer for a request that was never sent finds nothing outstanding and
  changes nothing).
\<close>

definition dequeue_pipeline :: "nat \<Rightarrow> reply \<Rightarrow> reply \<Rightarrow> reply \<Rightarrow> world \<Rightarrow> world" where
  "dequeue_pipeline h r1 r2 r3 w =
     reply_nb r3 (reply_nb r2 (reply_b r1 (snd (dequeue (Fn h) w))))"

text \<open>What such a run adds to the observations, by cases on the three answers.\<close>

definition pipeline_obs :: "nat \<Rightarrow> reply \<Rightarrow> reply \<Rightarrow> reply \<Rightarrow> obs list" where
  "pipeline_obs h r1 r2 r3 =
     (case r1 of
        Failed e \<Rightarrow> [Emitted_error e]
      | Done ident \<Rightarrow>
          (case r2 of
             Failed e \<Rightarrow> [Emitted_error (CouldNotLock ident), Emitted_error e]
           | Done res \<Rightarrow>
               if isLocked res
               then (case r3 of
                       Failed e \<Rightarrow> [Emitted_error e]
                     | Done data \<Rightarrow> [Handled h \<lparr>task_id = ident, task_data = data\<rparr>])
               else [Emitted_error (CouldNotLock ident), Emitted_error (CouldNotLock ident)]))"

subsection \<open>A concrete instance\<close>

text \<open>
  The queue of the test suite, \<open>new Queue('test', {})\<close>, with a lock time of one second
  and an empty store.
\<close>

definition q_test :: rq where
  "q_test = Rq ''test'' \<lparr>opt_host = None, opt_port = None, opt_retry = None\<rparr> ''tok''"

definition w_test :: world where
  "w_test = new_world q_test 1000 Map.empty"


text \<open>The same instance on a store whose id counter is at 5.\<close>

definition w_counter5 :: world where
  "w_counter5 = new_world q_test 1000 (Map.empty(''rq:test:id'' \<mapsto> RStr ''5'' None))"

section \<open>Evaluation on the concrete instance\<close>

lemma num_eval [simp]:
  "js_string_of_int 1 = ''1''" "js_string_of_int 2 = ''2''" "js_string_of_int 3 = ''3''"
  "js_string_of_int 5 = ''5''" "js_string_of_int 6 = ''6''"
  by code_simp+

lemma q_test_fields [simp]:
  "prefix q_test = ''rq:test:''" "lockToken q_test = ''tok''"
  "key_id (keys q_test) = ''rq:test:id''" "key_waiting (keys q_test) = ''rq:test:waiting''"
  "key_working (keys q_test) = ''rq:test:working''"
  by (simp_all add: q_test_def Rq_def mk_prefix_def)

lemma w_test_fields [simp]:
  "self w_test = q_test" "lockTime w_test = 1000" "lockTimeout w_test = None"
  "timers w_test = []" "next_timer w_test = 0" "nbclient w_test = []" "bclient w_test = []"
  "db w_test = Map.empty" "trace w_test = []" "handler_slot w_test = None"
  by (simp_all add: w_test_def new_world_def)

lemma parse_int_5 [simp]: "parse_int ''5'' = Some 5"
  by code_simp

lemma w_counter5_fields [simp]:
  "self w_counter5 = q_test" "lockTime w_counter5 = 1000" "lockTimeout w_counter5 = None"
  "timers w_counter5 = []" "next_timer w_counter5 = 0" "nbclient w_counter5 = []"
  "bclient w_counter5 = []" "trace w_counter5 = []"
  "db w_counter5 = Map.empty(''rq:test:id'' \<mapsto> RStr ''5'' None)"
  by (simp_all add: w_counter5_def new_world_def)

lemma enqueue_run_counter5:
  "run [Call_enqueue [(''foo'', ''bar'')] (Some 0), Nb_served, Nb_served] w_counter5 =
     w_counter5\<lparr>db := (Map.empty(''rq:test:id'' \<mapsto> RStr ''6'' None,
                                  ''rq:test:waiting'' \<mapsto> RList [''6''],
                                  ''rq:test:6'' \<mapsto> RHash [(''foo'', ''bar'')])),
                trace := [Called 0 (Done (JArr [JNum 1, JStr ''OK'']))]\<rparr>"
  by (simp add: run_def enqueue_def send_nb_def serve_nb_def reply_nb_def exec_incr_def
        optCallback_def enqueue_batch_def exec_multi_def getKeyForId_def)

section \<open>Keyspace: the derived keys never collide\<close>

lemma digit_val_digit: "d < 10 \<Longrightarrow> digit_val (digit_char d) = d"
  by (simp add: digit_val_def digit_char_def)

lemma undec_dec: "undec (dec n) = n"
proof (induction n rule: dec.induct)
  case (1 n)
  show ?case
  proof (cases "n < 10")
    case True
    then show ?thesis by (simp add: dec.simps[of n] undec_def digit_val_digit)
  next
    case False
    with 1 have "undec (dec (n div 10)) = n div 10" by simp
    with False show ?thesis
      by (simp add: dec.simps[of n] undec_def digit_val_digit)
  qed
qed

lemma dec_inj: "dec m = dec n \<Longrightarrow> m = n"
  by (metis undec_dec)

lemma is_digit_digit_char: "d < 10 \<Longrightarrow> is_digit (digit_char d)"
  by (simp add: is_digit_def digit_char_def)

lemma dec_chars: "c \<in> set (dec n) \<Longrightarrow> is_digit c"
proof (induction n rule: dec.induct)
  case (1 n)
  show ?case
  proof (cases "n < 10")
    case True
    with 1(2) show ?thesis by (simp add: dec.simps[of n] is_digit_digit_char)
  next
    case False
    have "is_digit (digit_char (n mod 10))" by (rule is_digit_digit_char) simp
    with False 1 show ?thesis by (auto simp add: dec.simps[of n])
  qed
qed

lemma dec_nonempty: "dec n \<noteq> []"
  by (subst dec.simps) simp

lemma hd_dec_not_minus: "hd (dec n) \<noteq> CHR ''-''"
proof -
  have "hd (dec n) \<in> set (dec n)" using dec_nonempty by simp
  then have "is_digit (hd (dec n))" by (rule dec_chars)
  then show ?thesis by (auto simp: is_digit_def)
qed

lemma js_string_of_int_inj: "js_string_of_int i = js_string_of_int j \<Longrightarrow> i = j"
proof -
  assume eq: "js_string_of_int i = js_string_of_int j"
  show ?thesis
  proof (cases "i < 0"; cases "j < 0")
    assume "i < 0" "j < 0"
    with eq have "dec (nat (- i)) = dec (nat (- j))" by (simp add: js_string_of_int_def)
    then have "nat (-i) = nat (-j)" by (rule dec_inj)
    with \<open>i < 0\<close> \<open>j < 0\<close> show ?thesis by simp
  next
    assume "i < 0" "\<not> j < 0"
    with eq have "CHR ''-'' # dec (nat (- i)) = dec (nat j)" by (simp add: js_string_of_int_def)
    then have "hd (dec (nat j)) = CHR ''-''" by (metis list.sel(1))
    with hd_dec_not_minus show ?thesis by blast
  next
    assume "\<not> i < 0" "j < 0"
    with eq have "CHR ''-'' # dec (nat (- j)) = dec (nat i)" by (simp add: js_string_of_int_def)
    then have "hd (dec (nat i)) = CHR ''-''" by (metis list.sel(1))
    with hd_dec_not_minus show ?thesis by blast
  next
    assume "\<not> i < 0" "\<not> j < 0"
    with eq have "dec (nat i) = dec (nat j)" by (simp add: js_string_of_int_def)
    then have "nat i = nat j" by (rule dec_inj)
    with \<open>\<not> i < 0\<close> \<open>\<not> j < 0\<close> show ?thesis by simp
  qed
qed

lemma num_chars: "c \<in> set (js_string_of_int i) \<Longrightarrow> is_numchar c"
  by (auto simp: js_string_of_int_def is_numchar_def dest: dec_chars split: if_splits)

lemma num_nonempty: "js_string_of_int i \<noteq> []"
  by (simp add: js_string_of_int_def dec_nonempty)


lemma diff_by_char: "c \<in> set x \<Longrightarrow> c \<notin> set y \<Longrightarrow> x \<noteq> y"
  by blast

lemma not_numchar_letters:
  "\<not> is_numchar CHR '':''" "\<not> is_numchar CHR ''i''" "\<not> is_numchar CHR ''w''"
  "\<not> is_numchar CHR ''c''" "\<not> is_numchar CHR ''l''"
  by (simp_all add: is_numchar_def is_digit_def)

lemma num_no_colon: "CHR '':'' \<notin> set (js_string_of_int i)"
  using num_chars[of "CHR '':''" i] not_numchar_letters(1) by blast

lemma num_hd: "is_numchar (hd (js_string_of_int i))"
  using num_chars[of "hd (js_string_of_int i)" i] num_nonempty[of i] by simp

lemma num_not_word:
  "js_string_of_int i \<noteq> ''id''" "js_string_of_int i \<noteq> ''waiting''"
  "js_string_of_int i \<noteq> ''working''" "js_string_of_int i \<noteq> ''completed''"
  "js_string_of_int i \<noteq> ''lock''"
proof -
  have h: "\<And>w. \<not> is_numchar (hd w) \<Longrightarrow> js_string_of_int i \<noteq> w"
    using num_hd[of i] by metis
  show "js_string_of_int i \<noteq> ''id''" by (rule h) (simp add: not_numchar_letters)
  show "js_string_of_int i \<noteq> ''waiting''" by (rule h) (simp add: not_numchar_letters)
  show "js_string_of_int i \<noteq> ''working''" by (rule h) (simp add: not_numchar_letters)
  show "js_string_of_int i \<noteq> ''completed''" by (rule h) (simp add: not_numchar_letters)
  show "js_string_of_int i \<noteq> ''lock''" by (rule h) (simp add: not_numchar_letters)
qed

lemma split_at_colon:
  "CHR '':'' \<notin> set a \<Longrightarrow> CHR '':'' \<notin> set b \<Longrightarrow> a @ CHR '':'' # s = b @ CHR '':'' # t
   \<Longrightarrow> a = b \<and> s = t"
proof (induction a arbitrary: b)
  case Nil
  then show ?case by (cases b) auto
next
  case (Cons x a)
  then show ?case by (cases b) auto
qed

lemma lock_suffix_not_word:
  "js_string_of_int i @ '':lock'' \<noteq> ''id''" "js_string_of_int i @ '':lock'' \<noteq> ''waiting''"
  "js_string_of_int i @ '':lock'' \<noteq> ''working''" "js_string_of_int i @ '':lock'' \<noteq> ''completed''"
proof -
  have c: "CHR '':'' \<in> set (js_string_of_int i @ '':lock'')" by simp
  show "js_string_of_int i @ '':lock'' \<noteq> ''id''" by (rule diff_by_char[OF c]) simp
  show "js_string_of_int i @ '':lock'' \<noteq> ''waiting''" by (rule diff_by_char[OF c]) simp
  show "js_string_of_int i @ '':lock'' \<noteq> ''working''" by (rule diff_by_char[OF c]) simp
  show "js_string_of_int i @ '':lock'' \<noteq> ''completed''" by (rule diff_by_char[OF c]) simp
qed

lemma lock_suffix_not_num: "js_string_of_int i @ '':lock'' \<noteq> js_string_of_int j"
proof -
  have c: "CHR '':'' \<in> set (js_string_of_int i @ '':lock'')" by simp
  show ?thesis by (rule diff_by_char[OF c]) (rule num_no_colon)
qed

lemma Rq_keys [simp]:
  "key_id (keys (Rq n opts tok)) = mk_prefix n @ ''id''"
  "key_waiting (keys (Rq n opts tok)) = mk_prefix n @ ''waiting''"
  "key_working (keys (Rq n opts tok)) = mk_prefix n @ ''working''"
  "key_completed (keys (Rq n opts tok)) = mk_prefix n @ ''completed''"
  "prefix (Rq n opts tok) = mk_prefix n"
  "lockToken (Rq n opts tok) = tok"
  by (simp_all add: Rq_def)

lemma Rq_record_key: "getKeyForId (Rq n opts tok) (JNum i) = mk_prefix n @ js_string_of_int i"
  by (simp add: getKeyForId_def)

lemma Rq_lock_key: "lockKeyFor (Rq n opts tok) (JNum i) = mk_prefix n @ js_string_of_int i @ '':lock''"
  by (simp add: lockKeyFor_def getKeyForId_def)

lemma derived_keys_suffixes: "derived_keys (Rq n opts tok) = (\<lambda>s. mk_prefix n @ s) ` suffixes"
  by (auto simp add: derived_keys_def fixed_keys_def suffixes_def Rq_record_key Rq_lock_key image_Un image_image)

lemma suffix_cases:
  assumes "s \<in> suffixes"
  obtains "s \<in> {''id'', ''waiting'', ''working'', ''completed''}"
        | i where "s = js_string_of_int i"
        | i where "s = js_string_of_int i @ '':lock''"
  using assms unfolding suffixes_def by blast

lemma suffix_colon:
  assumes "s \<in> suffixes" and "CHR '':'' \<in> set s"
  shows "\<exists>i. s = js_string_of_int i @ '':lock''"
  using assms(1)
proof (cases rule: suffix_cases)
  case 1
  then have "CHR '':'' \<notin> set s" by auto
  with assms(2) show ?thesis by simp
next
  case (2 i)
  with assms(2) num_no_colon show ?thesis by simp
next
  case (3 i)
  then show ?thesis by blast
qed

lemma suffix_not_lock:
  assumes "s \<in> suffixes"
  shows "s \<noteq> ''lock''"
  using assms
proof (cases rule: suffix_cases)
  case 1
  then show ?thesis by auto
next
  case (2 i)
  then show ?thesis by (simp add: num_not_word)
next
  case (3 i)
  have c: "CHR '':'' \<in> set (js_string_of_int i @ '':lock'')" by simp
  show ?thesis unfolding 3 by (rule diff_by_char[OF c]) simp
qed

lemma suffix_no_embed:
  assumes s: "s \<in> suffixes" and t: "t \<in> suffixes"
  shows "t \<noteq> u @ CHR '':'' # s"
proof
  assume eq: "t = u @ CHR '':'' # s"
  then have "CHR '':'' \<in> set t" by simp
  with t obtain i where ti: "t = js_string_of_int i @ '':lock''"
    using suffix_colon by blast
  show False
  proof (cases "CHR '':'' \<in> set s")
    case True
    with s obtain j where sj: "s = js_string_of_int j @ '':lock''"
      using suffix_colon by blast
    from eq ti sj have "js_string_of_int i @ '':lock'' = (u @ CHR '':'' # js_string_of_int j) @ '':lock''"
      by simp
    then have "js_string_of_int i = u @ CHR '':'' # js_string_of_int j"
      by (simp only: append_same_eq)
    then have "CHR '':'' \<in> set (js_string_of_int i)" by simp
    with num_no_colon show False by blast
  next
    case False
    from eq ti have "rev (js_string_of_int i @ '':lock'') = rev (u @ CHR '':'' # s)" by simp
    then have "''kcol'' @ CHR '':'' # rev (js_string_of_int i) = rev s @ CHR '':'' # rev u"
      by simp
    moreover have "CHR '':'' \<notin> set ''kcol''" by simp
    moreover from False have "CHR '':'' \<notin> set (rev s)" by simp
    ultimately have "''kcol'' = rev s" using split_at_colon by blast
    then have "rev ''kcol'' = s" by (metis rev_rev_ident)
    then have "s = ''lock''" by simp
    with suffix_not_lock[OF s] show False by blast
  qed
qed

lemma prefixed_key_inj:
  assumes eq: "mk_prefix n @ s = mk_prefix m @ t"
    and s: "s \<in> suffixes" and t: "t \<in> suffixes"
  shows "n = m"
proof -
  from eq have "n @ (CHR '':'' # s) = m @ (CHR '':'' # t)" by (simp add: mk_prefix_def)
  then obtain us where us:
    "(n = m @ us \<and> us @ (CHR '':'' # s) = CHR '':'' # t) \<or> (n @ us = m \<and> CHR '':'' # s = us @ (CHR '':'' # t))"
    unfolding append_eq_append_conv2 by blast
  show ?thesis
  proof (cases us)
    case Nil
    with us show ?thesis by auto
  next
    case (Cons c cs)
    from us show ?thesis
    proof
      assume a: "n = m @ us \<and> us @ (CHR '':'' # s) = CHR '':'' # t"
      with Cons have "t = cs @ CHR '':'' # s" by simp
      with suffix_no_embed[OF s t] show ?thesis by blast
    next
      assume a: "n @ us = m \<and> CHR '':'' # s = us @ (CHR '':'' # t)"
      with Cons have "s = cs @ CHR '':'' # t" by simp
      with suffix_no_embed[OF t s] show ?thesis by blast
    qed
  qed
qed

lemma derived_keys_disjoint:
  assumes "n \<noteq> m"
  shows "derived_keys (Rq n opts tok) \<inter> derived_keys (Rq m opts' tok') = {}"
proof -
  have "\<And>k. k \<in> derived_keys (Rq n opts tok) \<Longrightarrow> k \<in> derived_keys (Rq m opts' tok') \<Longrightarrow> False"
  proof -
    fix k
    assume "k \<in> derived_keys (Rq n opts tok)" "k \<in> derived_keys (Rq m opts' tok')"
    then obtain s t where "k = mk_prefix n @ s" "s \<in> suffixes" "k = mk_prefix m @ t" "t \<in> suffixes"
      unfolding derived_keys_suffixes by blast
    then have "n = m" using prefixed_key_inj by metis
    with assms show False by simp
  qed
  then show ?thesis by blast
qed

lemma own_keys_distinct:
  "distinct [key_id (keys (Rq n opts tok)), key_waiting (keys (Rq n opts tok)),
             key_working (keys (Rq n opts tok)), key_completed (keys (Rq n opts tok)),
             getKeyForId (Rq n opts tok) (JNum i), lockKeyFor (Rq n opts tok) (JNum i)]"
  using num_not_word[of i] lock_suffix_not_word[of i] lock_suffix_not_num[of i i]
  by (simp add: Rq_record_key Rq_lock_key)

lemma record_key_inj:
  "(getKeyForId (Rq n opts tok) (JNum i) = getKeyForId (Rq n opts tok) (JNum j)) = (i = j)"
  using js_string_of_int_inj by (auto simp add: Rq_record_key)

lemma lock_key_inj:
  "(lockKeyFor (Rq n opts tok) (JNum i) = lockKeyFor (Rq n opts tok) (JNum j)) = (i = j)"
  using js_string_of_int_inj by (auto simp add: Rq_lock_key)

lemma record_key_not_lock_key:
  "getKeyForId (Rq n opts tok) (JNum i) \<noteq> lockKeyFor (Rq n opts tok) (JNum j)"
  using lock_suffix_not_num[of j i] by (simp add: Rq_record_key Rq_lock_key)

text \<open>
  C8. The keys are functions of the queue name and the task id. For a queue of any name
  the id, waiting, working and completed keys, the record key of a task id and its lock
  key are pairwise distinct; record keys and lock keys of different ids differ, and no
  record key is a lock key; two queues of different names share no derived key. Task ids
  are numbers; an id gives the same keys as a number and as the decimal text the store
  hands back.
\<close>

theorem keyspace_collision_free:
  "distinct [key_id (keys (Rq n opts tok)), key_waiting (keys (Rq n opts tok)),
             key_working (keys (Rq n opts tok)), key_completed (keys (Rq n opts tok)),
             getKeyForId (Rq n opts tok) (JNum i), lockKeyFor (Rq n opts tok) (JNum i)]
   \<and> ((getKeyForId (Rq n opts tok) (JNum i) = getKeyForId (Rq n opts tok) (JNum j)) = (i = j))
   \<and> ((lockKeyFor (Rq n opts tok) (JNum i) = lockKeyFor (Rq n opts tok) (JNum j)) = (i = j))
   \<and> getKeyForId (Rq n opts tok) (JNum i) \<noteq> lockKeyFor (Rq n opts tok) (JNum j)
   \<and> getKeyForId (Rq n opts tok) (JStr (js_string_of_int i)) = getKeyForId (Rq n opts tok) (JNum i)
   \<and> (n \<noteq> m \<longrightarrow> derived_keys (Rq n opts tok) \<inter> derived_keys (Rq m opts' tok') = {})"
proof (intro conjI impI)
  show "getKeyForId (Rq n opts tok) (JStr (js_string_of_int i)) = getKeyForId (Rq n opts tok) (JNum i)"
    by (simp add: getKeyForId_def)
  show "distinct [key_id (keys (Rq n opts tok)), key_waiting (keys (Rq n opts tok)),
             key_working (keys (Rq n opts tok)), key_completed (keys (Rq n opts tok)),
             getKeyForId (Rq n opts tok) (JNum i), lockKeyFor (Rq n opts tok) (JNum i)]"
    by (rule own_keys_distinct)
  show "(getKeyForId (Rq n opts tok) (JNum i) = getKeyForId (Rq n opts tok) (JNum j)) = (i = j)"
    by (rule record_key_inj)
  show "(lockKeyFor (Rq n opts tok) (JNum i) = lockKeyFor (Rq n opts tok) (JNum j)) = (i = j)"
    by (rule lock_key_inj)
  show "getKeyForId (Rq n opts tok) (JNum i) \<noteq> lockKeyFor (Rq n opts tok) (JNum j)"
    by (rule record_key_not_lock_key)
  show "derived_keys (Rq n opts tok) \<inter> derived_keys (Rq m opts' tok') = {}" if "n \<noteq> m"
    using that by (rule derived_keys_disjoint)
qed

theorem keyspace_collision_free_witness:
  "''a'' \<noteq> ''a:1''
   \<and> derived_keys (Rq ''a'' \<lparr>opt_host = None, opt_port = None, opt_retry = None\<rparr> ''t1'')
     \<inter> derived_keys (Rq ''a:1'' \<lparr>opt_host = None, opt_port = None, opt_retry = None\<rparr> ''t2'') = {}
   \<and> getKeyForId (Rq ''a'' \<lparr>opt_host = None, opt_port = None, opt_retry = None\<rparr> ''t1'') (JNum 1)
       \<noteq> lockKeyFor (Rq ''a'' \<lparr>opt_host = None, opt_port = None, opt_retry = None\<rparr> ''t1'') (JNum 1)"
  using keyspace_collision_free[of "''a''" "\<lparr>opt_host = None, opt_port = None, opt_retry = None\<rparr>" "''t1''" 1 1
      "''a:1''" "\<lparr>opt_host = None, opt_port = None, opt_retry = None\<rparr>" "''t2''"]
  by simp

section \<open>The lock: what is sent to the store and what the store does with it\<close>

lemma lock_sends:
  "nbclient (lock ident renew cb w) =
     nbclient w @ [(SET (lockKeyFor (self w) ident) (lockToken (self w))
                        (PX (lockTime w) # (if renew then [] else [NX])),
                    K_lock_set ident (optCallback cb))]"
  by (simp add: lock_def Let_def send_nb_def clearTimeout_def lock_args_def split: option.splits)

lemma lock_keeps_self [simp]:
  "self (lock ident renew cb w) = self w" "lockTime (lock ident renew cb w) = lockTime w"
  "db (lock ident renew cb w) = db w" "trace (lock ident renew cb w) = trace w"
  "bclient (lock ident renew cb w) = bclient w" "lockTimeout (lock ident renew cb w) = lockTimeout w"
  by (simp_all add: lock_def Let_def send_nb_def clearTimeout_def split: option.splits)

lemma invoke_db: "db (invoke k r w) = db w"
proof (induction k arbitrary: w)
  case (K_lock_set ident k)
  then show ?case by (simp add: setTimeout_def Let_def emit_error_def)
next
  case (K_enqueue_incr data k)
  then show ?case by (cases r) (simp_all add: send_nb_def emit_error_def)
next
  case (K_enqueue_exec k)
  then show ?case by (cases r) (simp_all add: emit_error_def)
next
  case (K_dequeue_pop h)
  then show ?case by (cases r) (simp_all add: dequeue_final_def emit_error_def)
next
  case (K_dequeue_locked h t)
  then show ?case by (cases r) (simp_all add: dequeue_final_def emit_error_def send_nb_def)
next
  case (K_dequeue_loaded h t)
  then show ?case by (cases r) (simp_all add: dequeue_final_def emit_error_def)
qed simp_all

lemma lock_served_db:
  assumes "nbclient w = []"
  shows "db (serve_nb (lock ident renew cb w)) =
           (if \<not> renew \<and> db w (lockKeyFor (self w) ident) \<noteq> None then db w
            else (db w)(lockKeyFor (self w) ident \<mapsto> RStr (lockToken (self w)) (Some (lockTime w))))"
  using assms
  by (simp add: invoke_db serve_nb_def reply_nb_def lock_sends lock_def Let_def send_nb_def exec_set_def
        clearTimeout_def lock_args_def setTimeout_def isLocked_def emit_error_def split: option.splits)

text \<open>
  C1. For every task id, \<open>lock\<close> with \<open>renew = false\<close> sends one set of the lock key
  to the token of this queue with expiry \<open>config.lockTime\<close> and the only-if-absent
  flag: the store performs it only when the key does not exist, so a first acquisition
  of an id that is locked (by any token) is answered with null, which \<open>_isLocked\<close>
  rejects, and changes nothing. With \<open>renew = true\<close> the same set is sent without the
  flag, and the store always overwrites. So when the request is served, the store is
  left as it was by a first acquisition of a key that exists, and holds the token with
  the expiry in every other case.
\<close>

theorem lock_set_first_or_renew:
  "nbclient (lock ident False cb w) =
     nbclient w @ [(SET (lockKeyFor (self w) ident) (lockToken (self w)) [PX (lockTime w), NX],
                    K_lock_set ident (optCallback cb))]
   \<and> nbclient (lock ident True cb w) =
     nbclient w @ [(SET (lockKeyFor (self w) ident) (lockToken (self w)) [PX (lockTime w)],
                    K_lock_set ident (optCallback cb))]
   \<and> exec (SET (lockKeyFor (self w) ident) (lockToken (self w)) [PX (lockTime w), NX]) s =
       Some (if s (lockKeyFor (self w) ident) = None
             then (s(lockKeyFor (self w) ident \<mapsto> RStr (lockToken (self w)) (Some (lockTime w))),
                   Done (JStr ''OK''))
             else (s, Done Null))
   \<and> exec (SET (lockKeyFor (self w) ident) (lockToken (self w)) [PX (lockTime w), NX])
          (s(lockKeyFor (self w) ident \<mapsto> RStr other ttl)) =
       Some (s(lockKeyFor (self w) ident \<mapsto> RStr other ttl), Done Null)
   \<and> \<not> isLocked Null
   \<and> exec (SET (lockKeyFor (self w) ident) (lockToken (self w)) [PX (lockTime w)]) s =
       Some (s(lockKeyFor (self w) ident \<mapsto> RStr (lockToken (self w)) (Some (lockTime w))),
             Done (JStr ''OK''))
   \<and> isLocked (JStr ''OK'')
   \<and> (nbclient w = [] \<longrightarrow>
        db (serve_nb (lock ident renew cb w)) =
          (if \<not> renew \<and> db w (lockKeyFor (self w) ident) \<noteq> None then db w
           else (db w)(lockKeyFor (self w) ident \<mapsto> RStr (lockToken (self w)) (Some (lockTime w)))))"
  using lock_served_db[of w ident renew cb]
  by (simp add: lock_sends exec_set_def isLocked_def)

theorem lock_set_first_or_renew_witness:
  "nbclient (lock (JNum 1) False None w_test) =
     [(SET ''rq:test:1:lock'' ''tok'' [PX 1000, NX], K_lock_set (JNum 1) K_none)]
   \<and> exec (SET ''rq:test:1:lock'' ''tok'' [PX 1000, NX]) (Map.empty(''rq:test:1:lock'' \<mapsto> RStr ''other'' None))
       = Some (Map.empty(''rq:test:1:lock'' \<mapsto> RStr ''other'' None), Done Null)
   \<and> exec (SET ''rq:test:1:lock'' ''tok'' [PX 1000]) (Map.empty(''rq:test:1:lock'' \<mapsto> RStr ''other'' None))
       = Some (Map.empty(''rq:test:1:lock'' \<mapsto> RStr ''tok'' (Some 1000)), Done (JStr ''OK''))
   \<and> nbclient w_test = []
   \<and> db (serve_nb (lock (JNum 1) False None w_test)) ''rq:test:1:lock''
       = Some (RStr ''tok'' (Some 1000))"
  using lock_set_first_or_renew[of "JNum 1" None w_test "Map.empty(''rq:test:1:lock'' \<mapsto> RStr ''other'' None)" "''other''" None False]
  by (simp add: lockKeyFor_def getKeyForId_def optCallback_def)

section \<open>The release: one script, compare and delete\<close>

lemma unlock_script_exec:
  "exec_eval unlock_script 1 [k, t] s =
     (case s k of
        None \<Rightarrow> (s, Done (JNum 0))
      | Some (RStr v ttl) \<Rightarrow> if v = t then (s(k := None), Done (JNum 1)) else (s, Done (JNum 0))
      | Some (RList xs) \<Rightarrow> (s, Failed (StoreError ''ERR Error running script''))
      | Some (RHash h) \<Rightarrow> (s, Failed (StoreError ''ERR Error running script'')))"
  by (simp add: exec_eval_def unlock_script_def lua_index_def lua_truthy_def
           split: option.splits rvalue.splits)

lemma unlock_sends:
  "nbclient (unlock ident cb w) =
     nbclient w @ [(EVAL unlock_script 1 [lockKeyFor (self w) ident, lockToken (self w)],
                    optCallback cb)]"
  by (simp add: unlock_def Let_def send_nb_def clearTimeout_def split: option.splits)

lemma unlock_served_db:
  assumes "nbclient w = []"
  shows "db (serve_nb (unlock ident cb w)) =
           (if \<exists>ttl. db w (lockKeyFor (self w) ident) = Some (RStr (lockToken (self w)) ttl)
            then (db w)(lockKeyFor (self w) ident := None) else db w)"
proof -
  have "nbclient (unlock ident cb w) =
          [(EVAL unlock_script 1 [lockKeyFor (self w) ident, lockToken (self w)], optCallback cb)]"
    using assms by (simp add: unlock_sends)
  moreover have "db (unlock ident cb w) = db w"
    by (simp add: unlock_def Let_def send_nb_def clearTimeout_def split: option.splits)
  ultimately have "db (serve_nb (unlock ident cb w)) =
      fst (exec_eval unlock_script 1 [lockKeyFor (self w) ident, lockToken (self w)] (db w))"
    by (simp add: serve_nb_def reply_nb_def invoke_db split: prod.splits)
  then show ?thesis
    using unlock_script_exec[of "lockKeyFor (self w) ident" "lockToken (self w)" "db w"]
    by (auto split: option.splits rvalue.splits)
qed

text \<open>
  C2. For every task id, \<open>unlock\<close> sends one request, the script with the lock key and
  the token of this queue, which the store runs as one step: when the key holds this
  token the key is deleted and 1 is reported; when the key is absent or holds another
  token nothing changes and 0 is reported; and whatever the key holds, unless it is this
  token the store is left as it was, so a lock held under another token is never deleted.
  So when the request of \<open>unlock\<close> is served, the lock key is removed if it held this
  token and the store is unchanged otherwise.
\<close>

theorem unlock_compare_and_delete:
  "nbclient (unlock ident cb w) =
     nbclient w @ [(EVAL unlock_script 1 [lockKeyFor (self w) ident, lockToken (self w)],
                    optCallback cb)]
   \<and> ((\<exists>ttl. s (lockKeyFor (self w) ident) = Some (RStr (lockToken (self w)) ttl)) \<longrightarrow>
        exec (EVAL unlock_script 1 [lockKeyFor (self w) ident, lockToken (self w)]) s =
          Some (s(lockKeyFor (self w) ident := None), Done (JNum 1)))
   \<and> ((s (lockKeyFor (self w) ident) = None
         \<or> (\<exists>v ttl. s (lockKeyFor (self w) ident) = Some (RStr v ttl) \<and> v \<noteq> lockToken (self w))) \<longrightarrow>
        exec (EVAL unlock_script 1 [lockKeyFor (self w) ident, lockToken (self w)]) s =
          Some (s, Done (JNum 0)))
   \<and> ((\<forall>ttl. s (lockKeyFor (self w) ident) \<noteq> Some (RStr (lockToken (self w)) ttl)) \<longrightarrow>
        (\<exists>r. exec (EVAL unlock_script 1 [lockKeyFor (self w) ident, lockToken (self w)]) s =
          Some (s, r)))
   \<and> (nbclient w = [] \<longrightarrow>
        db (serve_nb (unlock ident cb w)) =
          (if \<exists>ttl. db w (lockKeyFor (self w) ident) = Some (RStr (lockToken (self w)) ttl)
           then (db w)(lockKeyFor (self w) ident := None) else db w))"
proof (intro conjI impI)
  show "db (serve_nb (unlock ident cb w)) =
          (if \<exists>ttl. db w (lockKeyFor (self w) ident) = Some (RStr (lockToken (self w)) ttl)
           then (db w)(lockKeyFor (self w) ident := None) else db w)" if "nbclient w = []"
    using that by (rule unlock_served_db)
next
  show "nbclient (unlock ident cb w) =
     nbclient w @ [(EVAL unlock_script 1 [lockKeyFor (self w) ident, lockToken (self w)],
                    optCallback cb)]"
    by (rule unlock_sends)
next
  assume "\<exists>ttl. s (lockKeyFor (self w) ident) = Some (RStr (lockToken (self w)) ttl)"
  then show "exec (EVAL unlock_script 1 [lockKeyFor (self w) ident, lockToken (self w)]) s =
          Some (s(lockKeyFor (self w) ident := None), Done (JNum 1))"
    using unlock_script_exec[of "lockKeyFor (self w) ident" "lockToken (self w)" s] by auto
next
  assume "s (lockKeyFor (self w) ident) = None
         \<or> (\<exists>v ttl. s (lockKeyFor (self w) ident) = Some (RStr v ttl) \<and> v \<noteq> lockToken (self w))"
  then show "exec (EVAL unlock_script 1 [lockKeyFor (self w) ident, lockToken (self w)]) s =
          Some (s, Done (JNum 0))"
    using unlock_script_exec[of "lockKeyFor (self w) ident" "lockToken (self w)" s] by auto
next
  assume "\<forall>ttl. s (lockKeyFor (self w) ident) \<noteq> Some (RStr (lockToken (self w)) ttl)"
  then show "\<exists>r. exec (EVAL unlock_script 1 [lockKeyFor (self w) ident, lockToken (self w)]) s =
          Some (s, r)"
    using unlock_script_exec[of "lockKeyFor (self w) ident" "lockToken (self w)" s]
    by (auto split: option.splits rvalue.splits)
qed

theorem unlock_compare_and_delete_witness:
  "exec (EVAL unlock_script 1 [''rq:test:1:lock'', ''tok''])
        (Map.empty(''rq:test:1:lock'' \<mapsto> RStr ''tok'' (Some 1000)))
     = Some ((Map.empty(''rq:test:1:lock'' \<mapsto> RStr ''tok'' (Some 1000)))(''rq:test:1:lock'' := None), Done (JNum 1))
   \<and> exec (EVAL unlock_script 1 [''rq:test:1:lock'', ''tok''])
        (Map.empty(''rq:test:1:lock'' \<mapsto> RStr ''other'' (Some 1000)))
     = Some (Map.empty(''rq:test:1:lock'' \<mapsto> RStr ''other'' (Some 1000)), Done (JNum 0))
   \<and> exec (EVAL unlock_script 1 [''rq:test:1:lock'', ''tok'']) Map.empty
     = Some (Map.empty, Done (JNum 0))
   \<and> nbclient w_test = []
   \<and> db (serve_nb (unlock (JNum 1) None w_test)) = Map.empty"
  using unlock_compare_and_delete[of "JNum 1" None w_test "Map.empty(''rq:test:1:lock'' \<mapsto> RStr ''tok'' (Some 1000))"]
        unlock_compare_and_delete[of "JNum 1" None w_test "Map.empty(''rq:test:1:lock'' \<mapsto> RStr ''other'' (Some 1000))"]
        unlock_compare_and_delete[of "JNum 1" None w_test "Map.empty"]
  by (simp add: lockKeyFor_def getKeyForId_def)

section \<open>dequeue: the handler must be a function\<close>

text \<open>
  C10. \<open>dequeue\<close> called with a value that is not a function throws a TypeError to its
  caller and leaves the instance as it was: no request is sent on either connection and
  nothing is emitted.
\<close>

theorem dequeue_rejects_non_function:
  "dequeue (NotFn v) w = (Some (TypeError ''handler must be a function''), w)
   \<and> nbclient (step (Call_dequeue (NotFn v)) w) = nbclient w
   \<and> bclient (step (Call_dequeue (NotFn v)) w) = bclient w
   \<and> trace (step (Call_dequeue (NotFn v)) w) = trace w"
  by (simp add: dequeue_def)

theorem dequeue_rejects_non_function_witness:
  "dequeue (NotFn (JStr ''nope'')) w_test = (Some (TypeError ''handler must be a function''), w_test)
   \<and> bclient (snd (dequeue (NotFn (JStr ''nope'')) w_test)) = []
   \<and> bclient (snd (dequeue (Fn 0) w_test)) = [(BRPOPLPUSH ''rq:test:waiting'' ''rq:test:working'' 0, K_dequeue_pop 0)]"
  using dequeue_rejects_non_function[of "JStr ''nope''" w_test]
  by (simp add: dequeue_def send_b_def)

section \<open>dequeue: the pipeline\<close>

lemma dequeue_pipeline_trace:
  assumes "nbclient w = []" and "bclient w = []"
  shows "trace (dequeue_pipeline h r1 r2 r3 w) = trace w @ pipeline_obs h r1 r2 r3"
  using assms
  by (cases r1; cases r2; cases r3)
     (simp_all add: dequeue_pipeline_def pipeline_obs_def dequeue_def send_b_def reply_b_def
        reply_nb_def lock_def Let_def send_nb_def clearTimeout_def optCallback_def
        dequeue_final_def emit_error_def couldNotLock_def setTimeout_def isLocked_def
        split: option.splits prod.splits)


lemma pipeline_obs_handled:
  "(\<exists>t. Handled h t \<in> set (pipeline_obs h r1 r2 r3)) =
   (\<exists>ident data. r1 = Done ident \<and> r2 = Done (JStr ''OK'') \<and> r3 = Done data)"
  by (cases r1; cases r2; cases r3) (auto simp add: pipeline_obs_def isLocked_def)

lemma pipeline_obs_handled_task:
  "Handled h' t \<in> set (pipeline_obs h r1 r2 r3) \<Longrightarrow>
   h' = h \<and> r1 = Done (task_id t) \<and> r2 = Done (JStr ''OK'') \<and> r3 = Done (task_data t)"
  by (cases r1; cases r2; cases r3) (auto simp add: pipeline_obs_def isLocked_def split: if_splits)

lemma pipeline_obs_error:
  "\<not> (\<exists>ident data. r1 = Done ident \<and> r2 = Done (JStr ''OK'') \<and> r3 = Done data) \<Longrightarrow>
   \<exists>e. Emitted_error e \<in> set (pipeline_obs h r1 r2 r3)"
  by (cases r1; cases r2; cases r3) (auto simp add: pipeline_obs_def isLocked_def)

lemma pipeline_obs_lock_failure:
  "r1 = Done ident \<Longrightarrow> r2 \<noteq> Done (JStr ''OK'') \<Longrightarrow>
   Emitted_error (CouldNotLock ident) \<in> set (pipeline_obs h r1 r2 r3)"
  by (cases r2; cases r3) (auto simp add: pipeline_obs_def isLocked_def)

text \<open>
  C5. One run of the dequeue pipeline, started with nothing outstanding, whatever the
  three answers are. What the run adds to the observations is \<open>pipeline_obs\<close>: the
  handler is called, once and with the task made of the id that was moved and the data
  that was read, exactly when the move succeeded, the set of the lock was answered
  \<open>'OK'\<close> and the read succeeded; in every other case an error is emitted and the
  handler is not called; when the lock is not acquired the error names the task id.
\<close>

theorem dequeue_pipeline_short_circuits:
  assumes "nbclient w = []" and "bclient w = []"
  shows "trace (dequeue_pipeline h r1 r2 r3 w) = trace w @ pipeline_obs h r1 r2 r3
    \<and> ((\<exists>t. Handled h t \<in> set (pipeline_obs h r1 r2 r3)) =
        (\<exists>ident data. r1 = Done ident \<and> r2 = Done (JStr ''OK'') \<and> r3 = Done data))
    \<and> (\<forall>h' t. Handled h' t \<in> set (pipeline_obs h r1 r2 r3) \<longrightarrow>
          h' = h \<and> r1 = Done (task_id t) \<and> r2 = Done (JStr ''OK'') \<and> r3 = Done (task_data t))
    \<and> (\<not> (\<exists>ident data. r1 = Done ident \<and> r2 = Done (JStr ''OK'') \<and> r3 = Done data) \<longrightarrow>
          (\<exists>e. Emitted_error e \<in> set (pipeline_obs h r1 r2 r3)))
    \<and> (\<forall>ident. r1 = Done ident \<and> r2 \<noteq> Done (JStr ''OK'') \<longrightarrow>
          Emitted_error (CouldNotLock ident) \<in> set (pipeline_obs h r1 r2 r3))"
proof (intro conjI allI impI)
  show "trace (dequeue_pipeline h r1 r2 r3 w) = trace w @ pipeline_obs h r1 r2 r3"
    by (rule dequeue_pipeline_trace[OF assms])
  show "(\<exists>t. Handled h t \<in> set (pipeline_obs h r1 r2 r3)) =
        (\<exists>ident data. r1 = Done ident \<and> r2 = Done (JStr ''OK'') \<and> r3 = Done data)"
    by (rule pipeline_obs_handled)
  show "h' = h" "r1 = Done (task_id t)" "r2 = Done (JStr ''OK'')" "r3 = Done (task_data t)"
    if "Handled h' t \<in> set (pipeline_obs h r1 r2 r3)" for h' t
    using pipeline_obs_handled_task[OF that] by simp_all
  show "\<exists>e. Emitted_error e \<in> set (pipeline_obs h r1 r2 r3)"
    if "\<not> (\<exists>ident data. r1 = Done ident \<and> r2 = Done (JStr ''OK'') \<and> r3 = Done data)"
    using that by (rule pipeline_obs_error)
  show "Emitted_error (CouldNotLock ident) \<in> set (pipeline_obs h r1 r2 r3)"
    if "r1 = Done ident \<and> r2 \<noteq> Done (JStr ''OK'')" for ident
    using that pipeline_obs_lock_failure by blast
qed

theorem dequeue_pipeline_short_circuits_witness:
  "nbclient w_test = [] \<and> bclient w_test = []
   \<and> trace (dequeue_pipeline 7 (Done (JStr ''1'')) (Done Null) (Done (JObj [(''foo'', ''bar'')])) w_test)
       = [Emitted_error (CouldNotLock (JStr ''1'')), Emitted_error (CouldNotLock (JStr ''1''))]
   \<and> trace (dequeue_pipeline 7 (Done (JStr ''1'')) (Done (JStr ''OK'')) (Done (JObj [(''foo'', ''bar'')])) w_test)
       = [Handled 7 \<lparr>task_id = JStr ''1'', task_data = JObj [(''foo'', ''bar'')]\<rparr>]
   \<and> trace (dequeue_pipeline 7 (Failed (StoreError ''down'')) (Done (JStr ''OK'')) (Done (JObj [(''foo'', ''bar'')])) w_test)
       = [Emitted_error (StoreError ''down'')]"
  using dequeue_pipeline_short_circuits[of w_test 7 "Done (JStr ''1'')" "Done Null" "Done (JObj [(''foo'', ''bar'')])"]
        dequeue_pipeline_short_circuits[of w_test 7 "Done (JStr ''1'')" "Done (JStr ''OK'')" "Done (JObj [(''foo'', ''bar'')])"]
        dequeue_pipeline_short_circuits[of w_test 7 "Failed (StoreError ''down'')" "Done (JStr ''OK'')" "Done (JObj [(''foo'', ''bar'')])"]
  by (simp add: pipeline_obs_def isLocked_def)

section \<open>enqueue: what the caller is told\<close>

lemma enqueue_batch_exec:
  assumes "data \<noteq> []" and "wk \<noteq> rk"
    and "s wk = None \<or> (\<exists>xs. s wk = Some (RList xs))"
    and "s rk = None \<or> (\<exists>h. s rk = Some (RHash h))"
  shows "exec (MULTI [LPUSH wk t, HMSET rk data]) s =
     Some (s(wk \<mapsto> RList (t # (case s wk of Some (RList xs) \<Rightarrow> xs | _ \<Rightarrow> [])),
             rk \<mapsto> RHash (fold hset data (case s rk of Some (RHash h) \<Rightarrow> h | _ \<Rightarrow> []))),
           Done (JArr [JNum (1 + int (length (case s wk of Some (RList xs) \<Rightarrow> xs | _ \<Rightarrow> []))),
                       JStr ''OK'']))"
  using assms by (auto simp add: exec_multi_def)

lemma enqueue_callback_trace:
  assumes "nbclient w = []"
  shows "trace (reply_nb (Done res) (reply_nb (Done ident) (enqueue data (Some (K_user n)) w)))
           = trace w @ [Called n (Done res)]"
    and "nbclient (reply_nb (Done ident) (enqueue data (Some (K_user n)) w))
           = [(enqueue_batch (self w) ident data, K_enqueue_exec (K_user n))]"
  using assms
  by (simp_all add: enqueue_def send_nb_def reply_nb_def optCallback_def)

text \<open>
  C7, as the claim states it, fails. With the id counter at 5 the increment assigns the
  id 6 (the waiting list then holds \<open>6\<close> and the record is stored under the key of 6),
  and the callback of \<open>enqueue\<close> is called with the reply of the batch, \<open>[1, 'OK']\<close>,
  not with 6.
\<close>

theorem enqueue_reports_id_counterexample:
  "db (run [Call_enqueue [(''foo'', ''bar'')] (Some 0), Nb_served, Nb_served] w_counter5)
      ''rq:test:waiting'' = Some (RList [''6''])
   \<and> db (run [Call_enqueue [(''foo'', ''bar'')] (Some 0), Nb_served, Nb_served] w_counter5)
      ''rq:test:6'' = Some (RHash [(''foo'', ''bar'')])
   \<and> trace (run [Call_enqueue [(''foo'', ''bar'')] (Some 0), Nb_served, Nb_served] w_counter5)
      = [Called 0 (Done (JArr [JNum 1, JStr ''OK'']))]
   \<and> Called 0 (Done (JNum 6))
      \<notin> set (trace (run [Call_enqueue [(''foo'', ''bar'')] (Some 0), Nb_served, Nb_served] w_counter5))"
  by (simp add: enqueue_run_counter5)

text \<open>
  C7, amended. For every successful enqueue call (the increment answers an id, the batch
  answers a result) the callback of \<open>enqueue\<close> is called once, without error and with
  the result of the batch; the id is not passed to it. On a store where the waiting key
  is free or a list, the record key is free or a hash and the data has a field, that
  result is the pair of the length of the waiting list after the push and \<open>'OK'\<close>: on
  an empty queue, \<open>[1, 'OK']\<close>.
\<close>

theorem enqueue_reports_batch_reply:
  assumes "nbclient w = []"
  shows "trace (reply_nb (Done res) (reply_nb (Done ident) (enqueue data (Some (K_user n)) w)))
           = trace w @ [Called n (Done res)]
    \<and> nbclient (reply_nb (Done ident) (enqueue data (Some (K_user n)) w))
           = [(enqueue_batch (self w) ident data, K_enqueue_exec (K_user n))]
    \<and> (data \<noteq> [] \<and> key_waiting (keys (self w)) \<noteq> getKeyForId (self w) ident
         \<and> (s (key_waiting (keys (self w))) = None \<or> (\<exists>xs. s (key_waiting (keys (self w))) = Some (RList xs)))
         \<and> (s (getKeyForId (self w) ident) = None \<or> (\<exists>h. s (getKeyForId (self w) ident) = Some (RHash h)))
        \<longrightarrow> (\<exists>s'. exec (enqueue_batch (self w) ident data) s =
                Some (s', Done (JArr [JNum (1 + int (length (waiting_ids (self w) s))), JStr ''OK'']))))"
proof (intro conjI impI)
  show "trace (reply_nb (Done res) (reply_nb (Done ident) (enqueue data (Some (K_user n)) w)))
           = trace w @ [Called n (Done res)]"
    by (rule enqueue_callback_trace(1)[OF assms])
  show "nbclient (reply_nb (Done ident) (enqueue data (Some (K_user n)) w))
           = [(enqueue_batch (self w) ident data, K_enqueue_exec (K_user n))]"
    by (rule enqueue_callback_trace(2)[OF assms])
next
  assume a: "data \<noteq> [] \<and> key_waiting (keys (self w)) \<noteq> getKeyForId (self w) ident
         \<and> (s (key_waiting (keys (self w))) = None \<or> (\<exists>xs. s (key_waiting (keys (self w))) = Some (RList xs)))
         \<and> (s (getKeyForId (self w) ident) = None \<or> (\<exists>h. s (getKeyForId (self w) ident) = Some (RHash h)))"
  then show "\<exists>s'. exec (enqueue_batch (self w) ident data) s =
                Some (s', Done (JArr [JNum (1 + int (length (waiting_ids (self w) s))), JStr ''OK'']))"
    using enqueue_batch_exec[of data "key_waiting (keys (self w))" "getKeyForId (self w) ident" s
             "js_to_string ident"]
    unfolding enqueue_batch_def waiting_ids_def by blast
qed

theorem enqueue_reports_batch_reply_witness:
  "nbclient w_test = []
   \<and> trace (reply_nb (Done (JArr [JNum 1, JStr ''OK''])) (reply_nb (Done (JNum 1))
        (enqueue [(''foo'', ''bar'')] (Some (K_user 0)) w_test)))
       = [Called 0 (Done (JArr [JNum 1, JStr ''OK'']))]
   \<and> (\<exists>s'. exec (enqueue_batch q_test (JNum 1) [(''foo'', ''bar'')]) Map.empty =
          Some (s', Done (JArr [JNum 1, JStr ''OK''])))"
  using enqueue_reports_batch_reply[of w_test "JArr [JNum 1, JStr ''OK'']" "JNum 1"
          "[(''foo'', ''bar'')]" 0 Map.empty]
  by (simp add: getKeyForId_def waiting_ids_def)

section \<open>Fields left alone by the helpers\<close>

lemma clearTimeout_fields [simp]:
  "nbclient (clearTimeout h w) = nbclient w" "bclient (clearTimeout h w) = bclient w"
  "lockTimeout (clearTimeout h w) = lockTimeout w" "trace (clearTimeout h w) = trace w"
  "db (clearTimeout h w) = db w" "self (clearTimeout h w) = self w"
  "lockTime (clearTimeout h w) = lockTime w" "next_timer (clearTimeout h w) = next_timer w"
  by (simp_all add: clearTimeout_def split: option.splits)

lemma send_nb_fields [simp]:
  "timers (send_nb c k w) = timers w" "bclient (send_nb c k w) = bclient w"
  "lockTimeout (send_nb c k w) = lockTimeout w" "trace (send_nb c k w) = trace w"
  "db (send_nb c k w) = db w" "nbclient (send_nb c k w) = nbclient w @ [(c, k)]"
  "self (send_nb c k w) = self w" "lockTime (send_nb c k w) = lockTime w"
  "next_timer (send_nb c k w) = next_timer w"
  by (simp_all add: send_nb_def)

lemma emit_error_fields [simp]:
  "timers (emit_error e w) = timers w" "bclient (emit_error e w) = bclient w"
  "lockTimeout (emit_error e w) = lockTimeout w" "trace (emit_error e w) = trace w @ [Emitted_error e]"
  "db (emit_error e w) = db w" "nbclient (emit_error e w) = nbclient w"
  by (simp_all add: emit_error_def)

lemma lock_timers: "timers (lock ident renew cb w) = timers (clearTimeout (lockTimeout w) w)"
  by (simp add: lock_def Let_def)

lemma plain_invoke:
  assumes "plain_cb cb"
  shows "timers (invoke cb r w) = timers w" "nbclient (invoke cb r w) = nbclient w"
    "bclient (invoke cb r w) = bclient w" "lockTimeout (invoke cb r w) = lockTimeout w"
    "db (invoke cb r w) = db w"
  using assms by (cases cb; simp)+

lemma dequeue_final_fields [simp]:
  "timers (dequeue_final h out w) = timers w" "nbclient (dequeue_final h out w) = nbclient w"
  "bclient (dequeue_final h out w) = bclient w" "lockTimeout (dequeue_final h out w) = lockTimeout w"
  "db (dequeue_final h out w) = db w"
  by (simp_all add: dequeue_final_def emit_error_def split: sum.splits)

section \<open>enqueue: the id and its record are published in one step\<close>

subsection \<open>Records and counters\<close>

lemma map_of_hset: "map_of (hset (f, v) h) = (map_of h)(f \<mapsto> v)"
  by (induction h) (auto simp add: fun_eq_iff)

lemma map_of_fold_hset: "map_of (fold hset fs h) = map_of h ++ map_of (rev fs)"
proof (induction fs arbitrary: h)
  case Nil
  then show ?case by simp
next
  case (Cons x fs)
  obtain f v where x: "x = (f, v)" by (cases x)
  have "map_of (fold hset (x # fs) h) = map_of (hset (f, v) h) ++ map_of (rev fs)"
    using Cons x by simp
  also have "\<dots> = (map_of h)(f \<mapsto> v) ++ map_of (rev fs)"
    by (simp add: map_of_hset)
  also have "\<dots> = map_of h ++ ([f \<mapsto> v] ++ map_of (rev fs))"
    by (simp add: fun_eq_iff map_add_def split: option.splits)
  also have "\<dots> = map_of h ++ map_of (rev (x # fs))"
    using x by simp
  finally show ?case .
qed

lemma hset_nonempty: "hset x h \<noteq> []"
  by (cases x; cases h) (auto split: if_splits)

lemma fold_hset_nonempty: "h \<noteq> [] \<or> fs \<noteq> [] \<Longrightarrow> fold hset fs h \<noteq> []"
  by (induction fs arbitrary: h) (auto simp add: hset_nonempty)

lemma parse_int_num:
  assumes "- (2 ^ 63) \<le> i" and "i < 2 ^ 63"
  shows "parse_int (js_string_of_int i) = Some i"
proof (cases "i < 0")
  case True
  then show ?thesis using assms by (simp add: parse_int_def js_string_of_int_def undec_dec)
next
  case False
  obtain c cs where d: "dec (nat i) = c # cs" using dec_nonempty[of "nat i"] by (cases "dec (nat i)") auto
  then have "c = hd (dec (nat i))" by simp
  then have "c \<noteq> CHR ''-''" using hd_dec_not_minus by simp
  moreover have "undec (c # cs) = nat i" using undec_dec[of "nat i"] d by simp
  ultimately show ?thesis using False d assms by (simp add: parse_int_def js_string_of_int_def)
qed

lemma parse_int_Some: "parse_int v = Some c \<Longrightarrow> v = js_string_of_int c \<and> c < 2 ^ 63"
  by (auto simp add: parse_int_def Let_def split: if_splits)

lemma ids_upto_mono: "c \<le> c' \<Longrightarrow> ids_upto c \<subseteq> ids_upto c'"
  by (auto simp add: ids_upto_def)

lemma ids_uptoE:
  assumes "t \<in> ids_upto c"
  obtains j where "t = js_string_of_int j" "1 \<le> j" "j \<le> c"
  using assms by (auto simp add: ids_upto_def)

lemma ids_upto_num: "(js_string_of_int j \<in> ids_upto c) = (1 \<le> j \<and> j \<le> c)"
proof
  assume "js_string_of_int j \<in> ids_upto c"
  then obtain x where "js_string_of_int j = js_string_of_int x" "1 \<le> x" "x \<le> c"
    by (auto simp add: ids_upto_def)
  moreover from this(1) have "j = x" by (rule js_string_of_int_inj)
  ultimately show "1 \<le> j \<and> j \<le> c" by simp
next
  assume "1 \<le> j \<and> j \<le> c"
  then show "js_string_of_int j \<in> ids_upto c" by (auto simp add: ids_upto_def)
qed

subsection \<open>Keys of a queue built by the constructor\<close>

lemma record_key_text: "prefix (Rq n opts tok) @ js_string_of_int i = getKeyForId (Rq n opts tok) (JNum i)"
  by (simp add: getKeyForId_def)

lemma record_key_not_fixed:
  "getKeyForId (Rq n opts tok) (JNum i) \<noteq> key_id (keys (Rq n opts tok))"
  "getKeyForId (Rq n opts tok) (JNum i) \<noteq> key_waiting (keys (Rq n opts tok))"
  "getKeyForId (Rq n opts tok) (JNum i) \<noteq> key_working (keys (Rq n opts tok))"
  using own_keys_distinct[of n opts tok i] by auto

lemma fixed_keys_differ:
  "key_id (keys (Rq n opts tok)) \<noteq> key_waiting (keys (Rq n opts tok))"
  "key_working (keys (Rq n opts tok)) \<noteq> key_waiting (keys (Rq n opts tok))"
  "key_working (keys (Rq n opts tok)) \<noteq> key_id (keys (Rq n opts tok))"
  using own_keys_distinct[of n opts tok 0] by auto

lemma any_lock_suffix:
  "x @ '':lock'' \<noteq> ''id''" "x @ '':lock'' \<noteq> ''waiting''" "x @ '':lock'' \<noteq> ''working''"
  "x @ '':lock'' \<noteq> js_string_of_int j"
proof -
  have c: "CHR '':'' \<in> set (x @ '':lock'')" by simp
  show "x @ '':lock'' \<noteq> ''id''" by (rule diff_by_char[OF c]) simp
  show "x @ '':lock'' \<noteq> ''waiting''" by (rule diff_by_char[OF c]) simp
  show "x @ '':lock'' \<noteq> ''working''" by (rule diff_by_char[OF c]) simp
  show "x @ '':lock'' \<noteq> js_string_of_int j" by (rule diff_by_char[OF c]) (rule num_no_colon)
qed

lemma any_lock_key:
  "prefix (Rq n opts tok) @ x @ '':lock'' \<noteq> key_id (keys (Rq n opts tok))"
  "prefix (Rq n opts tok) @ x @ '':lock'' \<noteq> key_waiting (keys (Rq n opts tok))"
  "prefix (Rq n opts tok) @ x @ '':lock'' \<noteq> key_working (keys (Rq n opts tok))"
  "prefix (Rq n opts tok) @ x @ '':lock'' \<noteq> getKeyForId (Rq n opts tok) (JNum j)"
  using any_lock_suffix(1-3)[of x] any_lock_suffix(4)[of x j] by (simp_all add: getKeyForId_def)

subsection \<open>The store, command by command\<close>

lemma stored_agree:
  assumes "stored (Rq n opts tok) c s t" and "c \<le> c'"
    and "keeps_records (Rq n opts tok) s s'"
  shows "stored (Rq n opts tok) c' s' t"
proof -
  from assms(1) obtain h where t: "t \<in> ids_upto c" and h: "record_of (Rq n opts tok) t s = Some h" "h \<noteq> []"
    by (auto simp add: stored_def)
  from t obtain j where j: "t = js_string_of_int j" by (rule ids_uptoE)
  from h(1) j have "s (getKeyForId (Rq n opts tok) (JNum j)) = Some (RHash h)"
    by (auto simp add: record_of_def getKeyForId_def split: option.splits rvalue.splits)
  with assms(3) have "s' (getKeyForId (Rq n opts tok) (JNum j)) = Some (RHash h)"
    by (simp add: keeps_records_def)
  then have "record_of (Rq n opts tok) t s' = Some h" using j
    by (simp add: record_of_def getKeyForId_def)
  with t h(2) ids_upto_mono[OF assms(2)] show ?thesis by (auto simp add: stored_def)
qed

text \<open>A step that touches neither the counter, nor the waiting list, nor a record key.\<close>

lemma store_inv_agree:
  assumes inv: "store_inv (Rq n opts tok) c G s"
    and i: "s' (key_id (keys (Rq n opts tok))) = s (key_id (keys (Rq n opts tok)))"
    and w: "s' (key_waiting (keys (Rq n opts tok))) = s (key_waiting (keys (Rq n opts tok)))"
    and r: "\<And>j. s' (getKeyForId (Rq n opts tok) (JNum j)) = s (getKeyForId (Rq n opts tok) (JNum j))"
  shows "store_inv (Rq n opts tok) c G s'" and "keeps_records (Rq n opts tok) s s'"
proof -
  let ?q = "Rq n opts tok"
  show k: "keeps_records ?q s s'" using r by (simp add: keeps_records_def)
  have ids: "waiting_ids ?q s' = waiting_ids ?q s" using w by (simp add: waiting_ids_def)
  have cnt: "id_counter ?q s' = id_counter ?q s" using i by (simp add: id_counter_def)
  have st: "stored ?q c s' t" if "stored ?q c s t" for t
    using that k by (rule stored_agree[OF _ order_refl])
  have g: "s' (prefix ?q @ t) = None" if "t \<in> ids_upto c" "s (prefix ?q @ t) = None" for t
  proof -
    from that(1) obtain j where "t = js_string_of_int j" by (rule ids_uptoE)
    then show ?thesis using that(2) r[of j] by (simp add: getKeyForId_def)
  qed
  from inv show "store_inv ?q c G s'"
    unfolding store_inv_def ids cnt using st g r by auto
qed

lemma store_inv_mono: "store_inv q c G s \<Longrightarrow> G' \<subseteq> G \<Longrightarrow> store_inv q c G' s"
  by (auto simp add: store_inv_def)

lemma keeps_records_refl: "keeps_records q s s"
  by (simp add: keeps_records_def)

lemma store_inv_incr:
  assumes inv: "store_inv (Rq n opts tok) c G s"
    and ex: "exec_incr (key_id (keys (Rq n opts tok))) s = (s', r)"
  shows "((\<exists>e. r = Failed e) \<and> s' = s)
       \<or> (r = Done (JNum (c + 1)) \<and> store_inv (Rq n opts tok) (c + 1) (insert (js_string_of_int (c + 1)) G) s'
           \<and> js_string_of_int (c + 1) \<notin> G \<and> keeps_records (Rq n opts tok) s s')"
proof -
  let ?q = "Rq n opts tok"
  let ?ik = "key_id (keys ?q)"
  from inv have cnt: "id_counter ?q s = Some c" and c0: "0 \<le> c" by (simp_all add: store_inv_def)
  have notG: "js_string_of_int (c + 1) \<notin> G"
  proof
    assume "js_string_of_int (c + 1) \<in> G"
    with inv have "js_string_of_int (c + 1) \<in> ids_upto c" by (simp add: store_inv_def)
    then show False by (simp add: ids_upto_num)
  qed
  have notW: "js_string_of_int (c + 1) \<notin> set (waiting_ids ?q s)"
  proof
    assume "js_string_of_int (c + 1) \<in> set (waiting_ids ?q s)"
    with inv have "js_string_of_int (c + 1) \<in> ids_upto c" by (simp add: store_inv_def stored_def)
    then show False by (simp add: ids_upto_num)
  qed
  have step: "store_inv ?q (c + 1) (insert (js_string_of_int (c + 1)) G) (s(?ik \<mapsto> RStr (js_string_of_int (c + 1)) ttl))
              \<and> keeps_records ?q s (s(?ik \<mapsto> RStr (js_string_of_int (c + 1)) ttl))"
    if lt: "c + 1 < 2 ^ 63" for ttl
  proof -
    let ?s = "s(?ik \<mapsto> RStr (js_string_of_int (c + 1)) ttl)"
    have r: "?s (getKeyForId ?q (JNum j)) = s (getKeyForId ?q (JNum j))" for j
      using record_key_not_fixed(1)[of n opts tok j] by simp
    have k: "keeps_records ?q s ?s" using r by (simp add: keeps_records_def)
    have ids: "waiting_ids ?q ?s = waiting_ids ?q s"
      using fixed_keys_differ(1)[of n opts tok] by (simp add: waiting_ids_def)
    have cnt': "id_counter ?q ?s = Some (c + 1)"
      using parse_int_num[of "c + 1"] c0 lt by (simp add: id_counter_def)
    have st: "stored ?q (c + 1) ?s t" if "stored ?q c s t" for t
      using that _ k by (rule stored_agree) simp
    have g: "?s (prefix ?q @ t) = None" if "t \<in> ids_upto (c + 1)" "s (prefix ?q @ t) = None" for t
    proof -
      from that(1) obtain j where "t = js_string_of_int j" by (rule ids_uptoE)
      then show ?thesis using that(2) r[of j] by (simp add: getKeyForId_def)
    qed
    have new: "s (prefix ?q @ js_string_of_int (c + 1)) = None"
      using inv by (simp add: store_inv_def getKeyForId_def)
    have up: "t \<in> ids_upto (c + 1)" if "t \<in> ids_upto c" for t
      using that ids_upto_mono[of c "c + 1"] by auto
    have "store_inv ?q (c + 1) (insert (js_string_of_int (c + 1)) G) ?s"
      unfolding store_inv_def ids cnt'
      using inv c0 st g new notW up r
      by (auto simp add: store_inv_def ids_upto_num)
    with k show ?thesis by simp
  qed
  show ?thesis
  proof (cases "s ?ik")
    case None
    with cnt have c: "c = 0" by (simp add: id_counter_def)
    from None ex have "s' = s(?ik \<mapsto> RStr ''1'' None)" "r = Done (JNum 1)"
      by (auto simp add: exec_incr_def)
    with step[of None] c notG show ?thesis by simp
  next
    case (Some v)
    show ?thesis
    proof (cases v)
      case (RStr x ttl)
      with Some cnt have p: "parse_int x = Some c" by (simp add: id_counter_def)
      show ?thesis
      proof (cases "c + 1 < 2 ^ 63")
        case True
        with Some RStr p ex have "s' = s(?ik \<mapsto> RStr (js_string_of_int (c + 1)) ttl)" "r = Done (JNum (c + 1))"
          by (auto simp add: exec_incr_def)
        with step[OF True, of ttl] notG show ?thesis by simp
      next
        case False
        with Some RStr p ex show ?thesis by (auto simp add: exec_incr_def)
      qed
    next
      case (RList xs)
      with Some cnt show ?thesis by (simp add: id_counter_def)
    next
      case (RHash h)
      with Some cnt show ?thesis by (simp add: id_counter_def)
    qed
  qed
qed


lemma store_inv_batch:
  assumes inv: "store_inv (Rq n opts tok) c G s"
    and g: "js_string_of_int j \<in> G"
    and ex: "exec_multi [LPUSH (key_waiting (keys (Rq n opts tok))) (js_string_of_int j),
                         HMSET (getKeyForId (Rq n opts tok) (JNum j)) data] s = (s', r)"
  shows "store_inv (Rq n opts tok) c (G - {js_string_of_int j}) s'"
    and "keeps_records (Rq n opts tok) s s'"
    and "(\<exists>e. r = Failed e) \<or> (\<exists>rs. r = Done (JArr rs))"
    and "r = Done (JArr rs) \<Longrightarrow> batch_succeeded rs \<Longrightarrow>
           waiting_ids (Rq n opts tok) s' = js_string_of_int j # waiting_ids (Rq n opts tok) s
           \<and> record_of (Rq n opts tok) (js_string_of_int j) s' = Some (fold hset data [])
           \<and> data \<noteq> []"
    and "data = [] \<Longrightarrow> s' = s"
    and "data \<noteq> [] \<Longrightarrow>
           s (key_waiting (keys (Rq n opts tok))) = None
             \<or> (\<exists>xs. s (key_waiting (keys (Rq n opts tok))) = Some (RList xs)) \<Longrightarrow>
           r = Done (JArr [JNum (1 + int (length (waiting_ids (Rq n opts tok) s))), JStr ''OK''])"
proof -
  let ?q = "Rq n opts tok"
  let ?wk = "key_waiting (keys ?q)"
  let ?rk = "getKeyForId ?q (JNum j)"
  let ?t = "js_string_of_int j"
  from inv g have tc: "?t \<in> ids_upto c" and tw: "?t \<notin> set (waiting_ids ?q s)"
    and tn: "s ?rk = None"
    by (simp_all add: store_inv_def getKeyForId_def)
  have rw: "?rk \<noteq> ?wk" by (rule record_key_not_fixed)
  have all: "store_inv ?q c (G - {?t}) s' \<and> keeps_records ?q s s'
      \<and> ((\<exists>e. r = Failed e) \<or> (\<exists>rs. r = Done (JArr rs)))
      \<and> (\<forall>rs. r = Done (JArr rs) \<longrightarrow> batch_succeeded rs \<longrightarrow>
           waiting_ids ?q s' = ?t # waiting_ids ?q s
           \<and> record_of ?q ?t s' = Some (fold hset data []) \<and> data \<noteq> [])
      \<and> (data = [] \<longrightarrow> s' = s)
      \<and> (data \<noteq> [] \<longrightarrow> s ?wk = None \<or> (\<exists>xs. s ?wk = Some (RList xs)) \<longrightarrow>
           r = Done (JArr [JNum (1 + int (length (waiting_ids ?q s))), JStr ''OK'']))"
  proof (cases "data = []")
    case True
    with ex have "s' = s" "\<exists>e. r = Failed e" by (auto simp add: exec_multi_def)
    with inv True show ?thesis by (auto simp add: keeps_records_refl intro: store_inv_mono)
  next
    case False
    define ws where "ws = (case s ?wk of None \<Rightarrow> Some (RList [?t])
                             | Some (RList xs) \<Rightarrow> Some (RList (?t # xs))
                             | Some v \<Rightarrow> Some v)"
    define r1 where "r1 = (case s ?wk of None \<Rightarrow> JNum 1
                             | Some (RList xs) \<Rightarrow> JNum (1 + int (length xs))
                             | Some v \<Rightarrow> JErr ''WRONGTYPE'')"
    have s': "s' = s(?wk := ws, ?rk \<mapsto> RHash (fold hset data []))"
      and r: "r = Done (JArr [r1, JStr ''OK''])"
      using ex False tn rw
      by (auto simp add: exec_multi_def ws_def r1_def split: option.splits rvalue.splits)
    have ik: "s' (key_id (keys ?q)) = s (key_id (keys ?q))"
      using record_key_not_fixed(1)[of n opts tok j] fixed_keys_differ(1)[of n opts tok]
      by (simp add: s')
    have other: "s' (getKeyForId ?q (JNum i)) = s (getKeyForId ?q (JNum i))" if "i \<noteq> j" for i
      using that record_key_not_fixed(2)[of n opts tok i] record_key_inj[of n opts tok i j]
      by (auto simp add: s')
    have k: "keeps_records ?q s s'"
      unfolding keeps_records_def
    proof (intro allI impI)
      fix i h assume a: "s (getKeyForId ?q (JNum i)) = Some (RHash h)"
      with tn have "i \<noteq> j" by auto
      with a other show "s' (getKeyForId ?q (JNum i)) = Some (RHash h)" by simp
    qed
    have rec: "record_of ?q ?t s' = Some (fold hset data [])"
      by (simp add: record_of_def s' getKeyForId_def)
    have wl: "waiting_ids ?q s' = waiting_ids ?q s \<or> waiting_ids ?q s' = ?t # waiting_ids ?q s"
      using rw by (auto simp add: waiting_ids_def s' ws_def split: option.splits rvalue.splits)
    have ok: "waiting_ids ?q s' = ?t # waiting_ids ?q s" if "batch_succeeded [r1, JStr ''OK'']"
      using that rw
      by (auto simp add: batch_succeeded_def waiting_ids_def s' ws_def r1_def split: option.splits rvalue.splits)
    have cnt: "id_counter ?q s' = id_counter ?q s" using ik by (simp add: id_counter_def)
    have new: "stored ?q c s' ?t"
      using tc rec False fold_hset_nonempty[of "[]" data] by (simp add: stored_def)
    have old: "stored ?q c s' t" if "stored ?q c s t" for t
      using that k by (rule stored_agree[OF _ order_refl])
    have inv': "store_inv ?q c (G - {?t}) s'"
      unfolding store_inv_def cnt
    proof (intro conjI ballI allI impI)
      show "id_counter ?q s = Some c" "0 \<le> c" using inv by (simp_all add: store_inv_def)
      show "distinct (waiting_ids ?q s')" using wl tw inv by (auto simp add: store_inv_def)
    next
      fix t assume "t \<in> set (waiting_ids ?q s')"
      with wl have "t = ?t \<or> t \<in> set (waiting_ids ?q s)" by auto
      then show "stored ?q c s' t" using new old inv by (auto simp add: store_inv_def)
    next
      fix i assume "c < i"
      moreover from tc have "j \<le> c" by (simp add: ids_upto_num)
      ultimately have "i \<noteq> j" by simp
      with other[of i] inv \<open>c < i\<close> show "s' (getKeyForId ?q (JNum i)) = None"
        by (simp add: store_inv_def)
    next
      fix t assume t: "t \<in> G - {?t}"
      with inv show "t \<in> ids_upto c" by (simp add: store_inv_def)
      from t inv have a: "t \<in> ids_upto c" "t \<notin> set (waiting_ids ?q s)" "s (prefix ?q @ t) = None" "t \<noteq> ?t"
        by (simp_all add: store_inv_def)
      from a(2,4) wl show "t \<notin> set (waiting_ids ?q s')" by auto
      from a(1) obtain i where i: "t = js_string_of_int i" by (rule ids_uptoE)
      with a(4) have "i \<noteq> j" by auto
      with other[of i] a(3) i show "s' (prefix ?q @ t) = None" by (simp add: getKeyForId_def)
    qed
    have full: "r1 = JNum (1 + int (length (waiting_ids ?q s)))"
      if "s ?wk = None \<or> (\<exists>xs. s ?wk = Some (RList xs))"
      using that
    proof
      assume "s ?wk = None"
      then show ?thesis by (simp add: r1_def waiting_ids_def)
    next
      assume "\<exists>xs. s ?wk = Some (RList xs)"
      then obtain xs where "s ?wk = Some (RList xs)" ..
      then show ?thesis by (simp add: r1_def waiting_ids_def)
    qed
    show ?thesis
    proof (intro conjI allI impI)
      show "store_inv ?q c (G - {?t}) s'" by (rule inv')
      show "keeps_records ?q s s'" by (rule k)
      show "(\<exists>e. r = Failed e) \<or> (\<exists>rs. r = Done (JArr rs))" by (simp add: r)
      show "data = [] \<Longrightarrow> s' = s" using False by simp
      show "data \<noteq> [] \<Longrightarrow> s ?wk = None \<or> (\<exists>xs. s ?wk = Some (RList xs)) \<Longrightarrow>
           r = Done (JArr [JNum (1 + int (length (waiting_ids ?q s))), JStr ''OK''])"
        unfolding r by (simp add: full)
    next
      fix rs assume "r = Done (JArr rs)" "batch_succeeded rs"
      then have b: "batch_succeeded [r1, JStr ''OK'']" unfolding r by simp
      show "waiting_ids ?q s' = ?t # waiting_ids ?q s" using b by (rule ok)
      show "record_of ?q ?t s' = Some (fold hset data [])" by (rule rec)
      show "data \<noteq> []" by (rule False)
    qed
  qed
  note c1 = all[THEN conjunct1]
  note c2 = all[THEN conjunct2, THEN conjunct1]
  note c3 = all[THEN conjunct2, THEN conjunct2, THEN conjunct1]
  note c4 = all[THEN conjunct2, THEN conjunct2, THEN conjunct2, THEN conjunct1, rule_format]
  note c5 = all[THEN conjunct2, THEN conjunct2, THEN conjunct2, THEN conjunct2, THEN conjunct1, rule_format]
  note c6 = all[THEN conjunct2, THEN conjunct2, THEN conjunct2, THEN conjunct2, THEN conjunct2, rule_format]
  show "store_inv (Rq n opts tok) c (G - {js_string_of_int j}) s'" by (rule c1)
  show "keeps_records (Rq n opts tok) s s'" by (rule c2)
  show "(\<exists>e. r = Failed e) \<or> (\<exists>rs. r = Done (JArr rs))" by (rule c3)
  show "r = Done (JArr rs) \<Longrightarrow> batch_succeeded rs \<Longrightarrow>
           waiting_ids (Rq n opts tok) s' = js_string_of_int j # waiting_ids (Rq n opts tok) s
           \<and> record_of (Rq n opts tok) (js_string_of_int j) s' = Some (fold hset data [])
           \<and> data \<noteq> []"
    by (rule c4)
  show "data = [] \<Longrightarrow> s' = s" by (rule c5)
  show "data \<noteq> [] \<Longrightarrow>
           s (key_waiting (keys (Rq n opts tok))) = None
             \<or> (\<exists>xs. s (key_waiting (keys (Rq n opts tok))) = Some (RList xs)) \<Longrightarrow>
           r = Done (JArr [JNum (1 + int (length (waiting_ids (Rq n opts tok) s))), JStr ''OK''])"
    by (rule c6)
qed

lemma store_inv_move:
  assumes inv: "store_inv (Rq n opts tok) c G s"
    and ex: "exec_brpoplpush (key_waiting (keys (Rq n opts tok))) (key_working (keys (Rq n opts tok))) s
               = Some (s', r)"
  shows "store_inv (Rq n opts tok) c G s'"
    and "keeps_records (Rq n opts tok) s s'"
    and "(\<exists>e. r = Failed e) \<or> (\<exists>u. r = Done (JStr u) \<and> u \<in> set (waiting_ids (Rq n opts tok) s)
                                      \<and> waiting_ids (Rq n opts tok) s' = butlast (waiting_ids (Rq n opts tok) s)
                                      \<and> u = last (waiting_ids (Rq n opts tok) s))"
proof -
  let ?q = "Rq n opts tok"
  let ?wk = "key_waiting (keys ?q)"
  let ?gk = "key_working (keys ?q)"
  have d: "?gk \<noteq> ?wk" "?gk \<noteq> key_id (keys ?q)" "key_id (keys ?q) \<noteq> ?wk"
    using fixed_keys_differ[of n opts tok] by auto
  from ex consider (1) xs where "s ?wk = Some (RList xs)" | (2) "s' = s" "\<exists>e. r = Failed e"
    by (auto simp add: exec_brpoplpush_def wrongtype_def split: option.splits rvalue.splits if_splits)
  then have all: "store_inv ?q c G s' \<and> keeps_records ?q s s'
     \<and> ((\<exists>e. r = Failed e) \<or> (\<exists>u. r = Done (JStr u) \<and> u \<in> set (waiting_ids ?q s)
           \<and> waiting_ids ?q s' = butlast (waiting_ids ?q s) \<and> u = last (waiting_ids ?q s)))"
  proof cases
    case 2
    with inv show ?thesis by (auto simp add: keeps_records_refl)
  next
    case 1
    show ?thesis
    proof (cases "s' = s \<and> (\<exists>e. r = Failed e)")
      case True
      with inv show ?thesis by (auto simp add: keeps_records_refl)
    next
      case False
      with ex 1 d have ne: "xs \<noteq> []" and r: "r = Done (JStr (last xs))"
        and ik: "s' (key_id (keys ?q)) = s (key_id (keys ?q))"
        and wl: "waiting_ids ?q s' = butlast xs"
        and oth: "\<And>k. k \<noteq> ?wk \<Longrightarrow> k \<noteq> ?gk \<Longrightarrow> s' k = s k"
        by (auto simp add: exec_brpoplpush_def wrongtype_def Let_def waiting_ids_def
                 split: option.splits rvalue.splits if_splits)
      have w: "waiting_ids ?q s = xs" using 1 by (simp add: waiting_ids_def)
      have rr: "s' (getKeyForId ?q (JNum i)) = s (getKeyForId ?q (JNum i))" for i
        using oth[of "getKeyForId ?q (JNum i)"] record_key_not_fixed[of n opts tok i] by simp
      have k: "keeps_records ?q s s'" using rr by (simp add: keeps_records_def)
      have cnt: "id_counter ?q s' = id_counter ?q s" using ik by (simp add: id_counter_def)
      have old: "stored ?q c s' t" if "stored ?q c s t" for t
        using that k by (rule stored_agree[OF _ order_refl])
      have sub: "t \<in> set xs" if "t \<in> set (butlast xs)" for t using that by (rule in_set_butlastD)
      have g: "s' (prefix ?q @ t) = None" if "t \<in> ids_upto c" "s (prefix ?q @ t) = None" for t
      proof -
        from that(1) obtain i where "t = js_string_of_int i" by (rule ids_uptoE)
        then show ?thesis using that(2) rr[of i] by (simp add: getKeyForId_def)
      qed
      have "store_inv ?q c G s'"
        unfolding store_inv_def cnt wl
        using inv w old sub g rr distinct_butlast[of xs]
        by (auto simp add: store_inv_def)
      with k r ne w wl show ?thesis by simp
    qed
  qed
  from all show "store_inv (Rq n opts tok) c G s'" "keeps_records (Rq n opts tok) s s'"
    "(\<exists>e. r = Failed e) \<or> (\<exists>u. r = Done (JStr u) \<and> u \<in> set (waiting_ids (Rq n opts tok) s)
                                      \<and> waiting_ids (Rq n opts tok) s' = butlast (waiting_ids (Rq n opts tok) s)
                                      \<and> u = last (waiting_ids (Rq n opts tok) s))"
    by simp_all
qed

lemma store_inv_lock_set:
  assumes inv: "store_inv (Rq n opts tok) c G s"
    and ex: "exec_set (prefix (Rq n opts tok) @ x @ '':lock'') v os s = (s', r)"
  shows "store_inv (Rq n opts tok) c G s'" and "keeps_records (Rq n opts tok) s s'"
    and "\<exists>v. r = Done v"
proof -
  let ?k = "prefix (Rq n opts tok) @ x @ '':lock''"
  from ex have s': "s' = s \<or> s' = s(?k \<mapsto> RStr v (px_of os))" and r: "\<exists>v. r = Done v"
    by (auto simp add: exec_set_def split: if_splits)
  show "\<exists>v. r = Done v" by (rule r)
  have o: "s' k = s k" if "?k \<noteq> k" for k using s' that by auto
  have a: "s' (key_id (keys (Rq n opts tok))) = s (key_id (keys (Rq n opts tok)))"
    "s' (key_waiting (keys (Rq n opts tok))) = s (key_waiting (keys (Rq n opts tok)))"
    "\<And>j. s' (getKeyForId (Rq n opts tok) (JNum j)) = s (getKeyForId (Rq n opts tok) (JNum j))"
    by (rule o, rule any_lock_key)+
  show "store_inv (Rq n opts tok) c G s'" using inv a by (rule store_inv_agree)
  show "keeps_records (Rq n opts tok) s s'" using inv a by (rule store_inv_agree)
qed

lemma store_inv_unlock_script:
  assumes inv: "store_inv (Rq n opts tok) c G s"
    and ex: "exec_eval unlock_script 1 [prefix (Rq n opts tok) @ x @ '':lock'', v] s = (s', r)"
  shows "store_inv (Rq n opts tok) c G s'" and "keeps_records (Rq n opts tok) s s'"
proof -
  let ?k = "prefix (Rq n opts tok) @ x @ '':lock''"
  from ex have s': "s' = s \<or> s' = s(?k := None)"
    unfolding unlock_script_exec by (auto split: option.splits rvalue.splits if_splits)
  have o: "s' k = s k" if "?k \<noteq> k" for k using s' that by auto
  have a: "s' (key_id (keys (Rq n opts tok))) = s (key_id (keys (Rq n opts tok)))"
    "s' (key_waiting (keys (Rq n opts tok))) = s (key_waiting (keys (Rq n opts tok)))"
    "\<And>j. s' (getKeyForId (Rq n opts tok) (JNum j)) = s (getKeyForId (Rq n opts tok) (JNum j))"
    by (rule o, rule any_lock_key)+
  show "store_inv (Rq n opts tok) c G s'" using inv a by (rule store_inv_agree)
  show "keeps_records (Rq n opts tok) s s'" using inv a by (rule store_inv_agree)
qed

subsection \<open>What an instance has claimed and handled stays valid\<close>

lemma record_of_kept:
  assumes "record_of (Rq n opts tok) t s = Some h" and "t \<in> ids_upto c"
    and "keeps_records (Rq n opts tok) s s'"
  shows "record_of (Rq n opts tok) t s' = Some h"
proof -
  from assms(2) obtain j where j: "t = js_string_of_int j" by (rule ids_uptoE)
  from assms(1) j have "s (getKeyForId (Rq n opts tok) (JNum j)) = Some (RHash h)"
    by (auto simp add: record_of_def getKeyForId_def split: option.splits rvalue.splits)
  with assms(3) have "s' (getKeyForId (Rq n opts tok) (JNum j)) = Some (RHash h)"
    by (simp add: keeps_records_def)
  then show ?thesis using j by (simp add: record_of_def getKeyForId_def)
qed

lemma claim_ok_mono:
  assumes "claim_ok (Rq n opts tok) c s p" and "c \<le> c'" and "keeps_records (Rq n opts tok) s s'"
  shows "claim_ok (Rq n opts tok) c' s' p"
  using assms stored_agree[OF _ assms(2,3)]
  by (auto simp add: claim_ok_def split: option.splits)

lemma handled_ok_mono:
  assumes "handled_ok (Rq n opts tok) c s ob" and "c \<le> c'" and "keeps_records (Rq n opts tok) s s'"
  shows "handled_ok (Rq n opts tok) c' s' ob"
proof (cases ob)
  case (Handled h t)
  with assms(1) obtain u rec where a: "task_id t = JStr u" "task_data t = JObj rec" "rec \<noteq> []"
    "u \<in> ids_upto c" "record_of (Rq n opts tok) u s = Some rec"
    by (auto simp add: handled_ok_def)
  from a(5,4) assms(3) have "record_of (Rq n opts tok) u s' = Some rec" by (rule record_of_kept)
  moreover from a(4) ids_upto_mono[OF assms(2)] have "u \<in> ids_upto c'" by auto
  ultimately show ?thesis using a Handled by (auto simp add: handled_ok_def)
qed (simp_all add: handled_ok_def)

lemma claims_mono:
  assumes "list_all (claim_ok (Rq n opts tok) c s) ps" and "c \<le> c'" and "keeps_records (Rq n opts tok) s s'"
  shows "list_all (claim_ok (Rq n opts tok) c' s') ps"
  using assms(1) claim_ok_mono[OF _ assms(2,3)] by (auto simp add: list_all_iff)

lemma handled_mono:
  assumes "list_all (handled_ok (Rq n opts tok) c s) obs" and "c \<le> c'" and "keeps_records (Rq n opts tok) s s'"
  shows "list_all (handled_ok (Rq n opts tok) c' s') obs"
  using assms(1) handled_ok_mono[OF _ assms(2,3)] by (auto simp add: list_all_iff)

lemma keeps_records_trans:
  "keeps_records q s s' \<Longrightarrow> keeps_records q s' s'' \<Longrightarrow> keeps_records q s s''"
  by (simp add: keeps_records_def)

subsection \<open>Outstanding batches\<close>

lemma pending_ids_append [simp]: "pending_ids (xs @ ys) = pending_ids xs @ pending_ids ys"
  by (induction xs) (auto split: option.splits)

lemma pending_ids_none: "batch_id c = None \<Longrightarrow> pending_ids [(c, k)] = []"
  by simp

lemma batch_id_enqueue_batch [simp]:
  "batch_id (enqueue_batch q (JNum j) data) = Some (js_string_of_int j)"
  by (simp add: enqueue_batch_def)

lemma enqueue_batch_cong:
  "keys q' = keys q \<Longrightarrow> prefix q' = prefix q \<Longrightarrow> enqueue_batch q' ident data = enqueue_batch q ident data"
  by (simp add: enqueue_batch_def getKeyForId_def)

subsection \<open>What a callback does on a reply\<close>

lemma emit_error_self [simp]: "self (emit_error e w) = self w"
  by (simp add: emit_error_def)

lemma dequeue_final_self [simp]: "self (dequeue_final h out w) = self w"
  by (simp add: dequeue_final_def split: sum.splits)

lemma invoke_self [simp]: "self (invoke k r w) = self w"
  by (induction k r w rule: invoke.induct)
     (auto simp add: Let_def setTimeout_def split: reply.splits)

lemma invoke_bclient [simp]: "bclient (invoke k r w) = bclient w"
  by (induction k r w rule: invoke.induct)
     (auto simp add: Let_def setTimeout_def split: reply.splits)

lemma invoke_plain_trace:
  "plain_cb k \<Longrightarrow> \<exists>obs. trace (invoke k r w) = trace w @ obs \<and> list_all (handled_ok q c s) obs"
  by (cases k) (simp_all add: handled_ok_def)

lemma invoke_lock_set_plain:
  assumes "plain_cb cb"
  shows "nbclient (invoke (K_lock_set ident cb) r w) = nbclient w"
    and "\<exists>obs. trace (invoke (K_lock_set ident cb) r w) = trace w @ obs \<and> list_all (handled_ok q c s) obs"
  using assms by (cases cb; simp add: Let_def setTimeout_def handled_ok_def)+

lemma invoke_failed:
  assumes "wf_nb_cont k \<or> wf_b_cont k"
  shows "nbclient (invoke k (Failed e) w) = nbclient w"
    and "\<exists>obs. trace (invoke k (Failed e) w) = trace w @ obs \<and> list_all (handled_ok q c s) obs"
proof -
  have p: "nbclient (invoke cb (Failed e) w') = nbclient w'
         \<and> (\<exists>obs. trace (invoke cb (Failed e) w') = trace w' @ obs \<and> list_all (handled_ok q c s) obs)"
    if "plain_cb cb" for cb w'
    using that by (cases cb) (simp_all add: handled_ok_def)
  have "nbclient (invoke k (Failed e) w) = nbclient w
      \<and> (\<exists>obs. trace (invoke k (Failed e) w) = trace w @ obs \<and> list_all (handled_ok q c s) obs)"
  proof (cases k)
    case K_none
    then show ?thesis by simp
  next
    case (K_user x)
    then show ?thesis by (simp add: handled_ok_def)
  next
    case (K_lock_set ident cb)
    show ?thesis
    proof (cases "plain_cb cb")
      case True
      with K_lock_set invoke_lock_set_plain(1)[OF True, of ident "Failed e" w]
        invoke_lock_set_plain(2)[OF True, of ident "Failed e" w q c s] show ?thesis by simp
    next
      case False
      with assms K_lock_set obtain h t where "cb = K_dequeue_locked h t"
        by (cases cb) auto
      with K_lock_set show ?thesis
        by (simp add: Let_def isLocked_def dequeue_final_def emit_error_def handled_ok_def)
    qed
  next
    case (K_enqueue_incr data cb)
    with assms have "plain_cb cb" by simp
    from p[OF this, of "emit_error e w"] K_enqueue_incr show ?thesis
      by (auto simp add: emit_error_def handled_ok_def)
  next
    case (K_enqueue_exec cb)
    with assms have "plain_cb cb" by simp
    from p[OF this, of "emit_error e w"] K_enqueue_exec show ?thesis
      by (auto simp add: emit_error_def handled_ok_def)
  next
    case (K_dequeue_pop h)
    then show ?thesis by (simp add: dequeue_final_def emit_error_def handled_ok_def)
  next
    case (K_dequeue_locked h t)
    then show ?thesis by (simp add: dequeue_final_def emit_error_def handled_ok_def)
  next
    case (K_dequeue_loaded h t)
    then show ?thesis by (simp add: dequeue_final_def emit_error_def handled_ok_def)
  qed
  then show "nbclient (invoke k (Failed e) w) = nbclient w"
    and "\<exists>obs. trace (invoke k (Failed e) w) = trace w @ obs \<and> list_all (handled_ok q c s) obs"
    by simp_all
qed

lemma req_ok_wf: "req_ok q (cmd, k) \<Longrightarrow> wf_nb_cont k"
  by (cases cmd) (auto elim: plain_cb.elims)

lemma breq_ok_wf: "breq_ok q (cmd, k) \<Longrightarrow> wf_b_cont k"
  by (cases cmd) auto

subsection \<open>One event at one instance\<close>

lemma plain_opt [simp]: "plain_cb (optCallback (map_option K_user cb))"
  by (cases cb) (simp_all add: optCallback_def)

lemma step_frame:
  assumes loc: "local_ok (Rq n opts tok) w"
    and cl: "list_all (claim_ok (Rq n opts tok) c (db w)) (nbclient w)"
    and cc: "c \<le> c'" and kr: "keeps_records (Rq n opts tok) (db w) (db w')"
    and inv': "store_inv (Rq n opts tok) c' (A \<union> set (pending_ids (nbclient w'))) (db w')"
    and dis': "A \<inter> set (pending_ids (nbclient w')) = {}"
    and dst: "distinct (pending_ids (nbclient w'))"
    and nb: "nbclient w' = rest @ reqs" "set rest \<subseteq> set (nbclient w)"
    and rq: "list_all (req_ok (Rq n opts tok)) reqs" "list_all (claim_ok (Rq n opts tok) c' (db w')) reqs"
    and b: "list_all (breq_ok (Rq n opts tok)) (bclient w')"
    and sf: "self w' = self w"
    and tr: "trace w' = trace w @ obs" "list_all (handled_ok (Rq n opts tok) c' (db w')) obs"
  shows "\<exists>c' obs. c \<le> c' \<and> keeps_records (Rq n opts tok) (db w) (db w')
       \<and> store_inv (Rq n opts tok) c' (A \<union> set (pending_ids (nbclient w'))) (db w')
       \<and> A \<inter> set (pending_ids (nbclient w')) = {}
       \<and> list_all (claim_ok (Rq n opts tok) c' (db w')) (nbclient w')
       \<and> local_ok (Rq n opts tok) w'
       \<and> trace w' = trace w @ obs \<and> list_all (handled_ok (Rq n opts tok) c' (db w')) obs"
proof -
  have "list_all (claim_ok (Rq n opts tok) c' (db w')) (nbclient w)"
    using cl cc kr by (rule claims_mono)
  with nb(2) have "list_all (claim_ok (Rq n opts tok) c' (db w')) rest"
    by (auto simp add: list_all_iff)
  with rq(2) nb(1) have c: "list_all (claim_ok (Rq n opts tok) c' (db w')) (nbclient w')" by simp
  from loc nb(2) have "list_all (req_ok (Rq n opts tok)) rest"
    by (auto simp add: local_ok_def list_all_iff)
  with rq(1) nb(1) have "list_all (req_ok (Rq n opts tok)) (nbclient w')" by simp
  with loc sf b dst have l: "local_ok (Rq n opts tok) w'" by (simp add: local_ok_def)
  from cc kr inv' dis' c l tr show ?thesis by blast
qed

lemma world_step:
  assumes loc: "local_ok (Rq n opts tok) w"
    and inv: "store_inv (Rq n opts tok) c (A \<union> set (pending_ids (nbclient w))) (db w)"
    and dis: "A \<inter> set (pending_ids (nbclient w)) = {}"
    and cl: "list_all (claim_ok (Rq n opts tok) c (db w)) (nbclient w)"
    and nf: "\<not> is_foreign e"
  shows "\<exists>c' obs. c \<le> c' \<and> keeps_records (Rq n opts tok) (db w) (db (step e w))
       \<and> store_inv (Rq n opts tok) c' (A \<union> set (pending_ids (nbclient (step e w)))) (db (step e w))
       \<and> A \<inter> set (pending_ids (nbclient (step e w))) = {}
       \<and> list_all (claim_ok (Rq n opts tok) c' (db (step e w))) (nbclient (step e w))
       \<and> local_ok (Rq n opts tok) (step e w)
       \<and> trace (step e w) = trace w @ obs \<and> list_all (handled_ok (Rq n opts tok) c' (db (step e w))) obs"
proof -
  let ?q = "Rq n opts tok"
  from loc have ks: "keys (self w) = keys ?q" and pf: "prefix (self w) = prefix ?q"
    and rqs: "list_all (req_ok ?q) (nbclient w)" and brqs: "list_all (breq_ok ?q) (bclient w)"
    and dst: "distinct (pending_ids (nbclient w))"
    by (simp_all add: local_ok_def)
  have added: ?thesis
    if "nbclient (step e w) = nbclient w @ [(cmd, k)]" "batch_id cmd = None"
      "req_ok ?q (cmd, k)" "claim_of k = None" "list_all (breq_ok ?q) (bclient (step e w))"
      "db (step e w) = db w" "self (step e w) = self w" "trace (step e w) = trace w"
    for cmd k
  proof (rule step_frame[OF loc cl order_refl, where rest = "nbclient w" and reqs = "[(cmd, k)]" and obs = "[]"])
    show "keeps_records ?q (db w) (db (step e w))" using that by (simp add: keeps_records_refl)
    show "store_inv ?q c (A \<union> set (pending_ids (nbclient (step e w)))) (db (step e w))"
      using that inv by simp
    show "A \<inter> set (pending_ids (nbclient (step e w))) = {}" using that dis by simp
    show "distinct (pending_ids (nbclient (step e w)))" using that dst by simp
    show "list_all (claim_ok ?q c (db (step e w))) [(cmd, k)]" using that by (simp add: claim_ok_def)
  qed (use that in simp_all)
  have answered: ?thesis
    if "nbclient w = p # rest" "nbclient (step e w) = rest"
      "store_inv ?q c (A \<union> set (pending_ids rest)) (db (step e w))"
      "keeps_records ?q (db w) (db (step e w))"
      "self (step e w) = self w" "bclient (step e w) = bclient w"
      "trace (step e w) = trace w @ obs" "list_all (handled_ok ?q c (db (step e w))) obs"
    for p rest obs
  proof (rule step_frame[OF loc cl order_refl, where rest = rest and reqs = "[]" and obs = obs])
    have sub: "set (pending_ids rest) \<subseteq> set (pending_ids (nbclient w))"
      using that(1) by (cases p) (auto split: option.splits)
    show "A \<inter> set (pending_ids (nbclient (step e w))) = {}" using that(2) dis sub by auto
    show "distinct (pending_ids (nbclient (step e w)))"
      using that(1,2) dst by (cases p) (auto split: option.splits)
    show "set rest \<subseteq> set (nbclient w)" using that(1) by auto
    show "list_all (breq_ok ?q) (bclient (step e w))" using that brqs by simp
  qed (use that in simp_all)
  show ?thesis
  proof (cases e)
    case (Call_enqueue data cb)
    show ?thesis
    proof (rule added)
      show "nbclient (step e w) = nbclient w @ [(INCR (key_id (keys (self w))), K_enqueue_incr data (optCallback (map_option K_user cb)))]"
        using Call_enqueue by (simp add: enqueue_def)
      show "req_ok ?q (INCR (key_id (keys (self w))), K_enqueue_incr data (optCallback (map_option K_user cb)))"
        using ks by simp
    qed (use Call_enqueue brqs in \<open>simp_all add: enqueue_def\<close>)
  next
    case (Call_lock ident renew cb)
    show ?thesis
    proof (rule added)
      show "nbclient (step e w) = nbclient w @ [(SET (lockKeyFor (self w) ident) (lockToken (self w))
                        (PX (lockTime w) # (if renew then [] else [NX])), K_lock_set ident (optCallback (map_option K_user cb)))]"
        using Call_lock by (simp add: lock_sends)
      show "req_ok ?q (SET (lockKeyFor (self w) ident) (lockToken (self w))
                        (PX (lockTime w) # (if renew then [] else [NX])), K_lock_set ident (optCallback (map_option K_user cb)))"
        using pf by (simp add: lockKeyFor_def getKeyForId_def del: Rq_keys)
      show "claim_of (K_lock_set ident (optCallback (map_option K_user cb))) = None"
        by (cases cb) (simp_all add: optCallback_def)
    qed (use Call_lock brqs in simp_all)
  next
    case (Call_unlock ident cb)
    show ?thesis
    proof (rule added)
      show "nbclient (step e w) = nbclient w @ [(EVAL unlock_script 1 [lockKeyFor (self w) ident, lockToken (self w)],
                    optCallback (map_option K_user cb))]"
        using Call_unlock by (simp add: unlock_sends)
      show "req_ok ?q (EVAL unlock_script 1 [lockKeyFor (self w) ident, lockToken (self w)],
                    optCallback (map_option K_user cb))"
        using pf by (simp add: lockKeyFor_def getKeyForId_def del: Rq_keys)
      show "claim_of (optCallback (map_option K_user cb)) = None"
        by (cases cb) (simp_all add: optCallback_def)
    qed (use Call_unlock brqs in \<open>simp_all add: unlock_def Let_def\<close>)
  next
    case (Fire h)
    show ?thesis
    proof (cases "find (\<lambda>t. fst t = h) (timers w)")
      case None
      with Fire have "step e w = w" by (simp add: fire_def)
      with loc inv dis cl show ?thesis
        by (auto simp add: keeps_records_refl intro!: exI[of _ c] exI[of _ "[]"])
    next
      case (Some a)
      obtain h' delay ident where a: "a = (h', delay, ident)" by (cases a)
      let ?w1 = "w\<lparr>timers := filter (\<lambda>t. fst t \<noteq> h) (timers w)\<rparr>"
      have st: "step e w = lock ident True None ?w1" using Fire Some a by (simp add: fire_def)
      show ?thesis
      proof (rule added)
        show "nbclient (step e w) = nbclient w @ [(SET (lockKeyFor (self w) ident) (lockToken (self w))
                        (PX (lockTime w) # []), K_lock_set ident K_none)]"
          unfolding st by (simp add: lock_sends optCallback_def)
        show "req_ok ?q (SET (lockKeyFor (self w) ident) (lockToken (self w))
                        (PX (lockTime w) # []), K_lock_set ident K_none)"
          using pf by (simp add: lockKeyFor_def getKeyForId_def del: Rq_keys)
      qed (use brqs in \<open>simp_all add: st\<close>)
    qed
  next
    case (Call_dequeue handler)
    have "nbclient (step e w) = nbclient w @ []" "db (step e w) = db w" "self (step e w) = self w"
      "trace (step e w) = trace w @ []" "list_all (breq_ok ?q) (bclient (step e w))"
      using Call_dequeue brqs ks
      by (auto simp add: dequeue_def send_b_def split: handler_arg.splits)
    then show ?thesis
      using inv dis dst
      by (intro step_frame[OF loc cl order_refl, where rest = "nbclient w" and reqs = "[]" and obs = "[]"])
         (simp_all add: keeps_records_refl)
  next
    case (Foreign x)
    with nf show ?thesis by simp
  next
    case (Nb_failed err)
    show ?thesis
    proof (cases "nbclient w")
      case Nil
      with Nb_failed have "step e w = w" by (simp add: reply_nb_def)
      with loc inv dis cl show ?thesis
        by (auto simp add: keeps_records_refl intro!: exI[of _ c] exI[of _ "[]"])
    next
      case (Cons p rest)
      obtain cmd k where p: "p = (cmd, k)" by (cases p)
      let ?w1 = "w\<lparr>nbclient := rest\<rparr>"
      have st: "step e w = invoke k (Failed err) ?w1" using Nb_failed Cons p by (simp add: reply_nb_def)
      from rqs Cons p have "wf_nb_cont k" by (auto intro: req_ok_wf)
      then have wf: "wf_nb_cont k \<or> wf_b_cont k" ..
      from invoke_failed(2)[OF wf, of err ?w1 ?q c "db w"] obtain obs where
        obs: "trace (step e w) = trace w @ obs" "list_all (handled_ok ?q c (db w)) obs"
        unfolding st by auto
      show ?thesis
      proof (rule answered[OF Cons, where obs = obs])
        show "nbclient (step e w) = rest" unfolding st using invoke_failed(1)[OF wf, of err ?w1] by simp
        show "store_inv ?q c (A \<union> set (pending_ids rest)) (db (step e w))"
          unfolding st invoke_db using inv Cons p
          by (auto intro: store_inv_mono split: option.splits)
        show "keeps_records ?q (db w) (db (step e w))" unfolding st invoke_db by (simp add: keeps_records_refl)
        show "list_all (handled_ok ?q c (db (step e w))) obs" unfolding st invoke_db using obs(2) by simp
      qed (simp_all add: st obs[unfolded st])
    qed
  next
    case (B_failed err)
    show ?thesis
    proof (cases "bclient w")
      case Nil
      with B_failed have "step e w = w" by (simp add: reply_b_def)
      with loc inv dis cl show ?thesis
        by (auto simp add: keeps_records_refl intro!: exI[of _ c] exI[of _ "[]"])
    next
      case (Cons p brest)
      obtain cmd k where p: "p = (cmd, k)" by (cases p)
      let ?w1 = "w\<lparr>bclient := brest\<rparr>"
      have st: "step e w = invoke k (Failed err) ?w1" using B_failed Cons p by (simp add: reply_b_def)
      from brqs Cons p have "wf_b_cont k" by (auto intro: breq_ok_wf)
      then have wf: "wf_nb_cont k \<or> wf_b_cont k" ..
      from invoke_failed(2)[OF wf, of err ?w1 ?q c "db w"] obtain obs where
        obs: "trace (step e w) = trace w @ obs" "list_all (handled_ok ?q c (db w)) obs"
        unfolding st by auto
      have nbs: "nbclient (step e w) = nbclient w @ []"
        unfolding st using invoke_failed(1)[OF wf, of err ?w1] by simp
      show ?thesis
      proof (rule step_frame[OF loc cl order_refl, where rest = "nbclient w" and reqs = "[]" and obs = obs])
        show "keeps_records ?q (db w) (db (step e w))" unfolding st invoke_db by (simp add: keeps_records_refl)
        show "store_inv ?q c (A \<union> set (pending_ids (nbclient (step e w)))) (db (step e w))"
          unfolding nbs unfolding st invoke_db using inv by simp
        show "A \<inter> set (pending_ids (nbclient (step e w))) = {}" unfolding nbs using dis by simp
        show "distinct (pending_ids (nbclient (step e w)))" unfolding nbs using dst by simp
        show "nbclient (step e w) = nbclient w @ []" by (rule nbs)
        show "list_all (breq_ok ?q) (bclient (step e w))" unfolding st using brqs Cons by simp
        show "list_all (handled_ok ?q c (db (step e w))) obs" unfolding st invoke_db using obs(2) by simp
        show "trace (step e w) = trace w @ obs" by (rule obs)
      qed (simp_all add: st)
    qed
  next
    case B_served
    show ?thesis
    proof (cases "bclient w")
      case Nil
      with B_served have "step e w = w" by (simp add: serve_b_def)
      with loc inv dis cl show ?thesis
        by (auto simp add: keeps_records_refl intro!: exI[of _ c] exI[of _ "[]"])
    next
      case (Cons p brest)
      obtain cmd k where p: "p = (cmd, k)" by (cases p)
      from brqs Cons p obtain t0 h where cmd: "cmd = BRPOPLPUSH (key_waiting (keys ?q)) (key_working (keys ?q)) t0"
        and k: "k = K_dequeue_pop h"
        by (cases cmd) auto
      show ?thesis
      proof (cases "exec_brpoplpush (key_waiting (keys ?q)) (key_working (keys ?q)) (db w)")
        case None
        with B_served Cons p cmd have "step e w = w" by (simp add: serve_b_def del: Rq_keys)
        with loc inv dis cl show ?thesis
          by (auto simp add: keeps_records_refl intro!: exI[of _ c] exI[of _ "[]"])
      next
        case (Some a)
        obtain s' r where a: "a = (s', r)" by (cases a)
        let ?w1 = "w\<lparr>db := s', bclient := brest\<rparr>"
        have st: "step e w = invoke (K_dequeue_pop h) r ?w1"
          using B_served Cons p cmd k Some a by (simp add: serve_b_def reply_b_def del: Rq_keys)
        have db': "db (step e w) = s'" unfolding st invoke_db by simp
        note mv = store_inv_move[OF inv Some[unfolded a]]
        from mv(3) show ?thesis
        proof
          assume "\<exists>err. r = Failed err"
          then obtain err where r: "r = Failed err" ..
          have nbs: "nbclient (step e w) = nbclient w @ []" unfolding st r by (simp add: dequeue_final_def)
          show ?thesis
          proof (rule step_frame[OF loc cl order_refl, where rest = "nbclient w" and reqs = "[]"
                   and obs = "[Emitted_error err]"])
            show "keeps_records ?q (db w) (db (step e w))" unfolding db' by (rule mv(2))
            show "store_inv ?q c (A \<union> set (pending_ids (nbclient (step e w)))) (db (step e w))"
              unfolding nbs db' using mv(1) by simp
            show "A \<inter> set (pending_ids (nbclient (step e w))) = {}" unfolding nbs using dis by simp
            show "distinct (pending_ids (nbclient (step e w)))" unfolding nbs using dst by simp
            show "nbclient (step e w) = nbclient w @ []" by (rule nbs)
            show "list_all (breq_ok ?q) (bclient (step e w))" unfolding st r using brqs Cons by simp
            show "trace (step e w) = trace w @ [Emitted_error err]" unfolding st r by (simp add: dequeue_final_def)
            show "list_all (handled_ok ?q c (db (step e w))) [Emitted_error err]" by (simp add: handled_ok_def)
          qed (simp_all add: st r)
        next
          assume "\<exists>u. r = Done (JStr u) \<and> u \<in> set (waiting_ids ?q (db w))
                    \<and> waiting_ids ?q s' = butlast (waiting_ids ?q (db w)) \<and> u = last (waiting_ids ?q (db w))"
          then obtain u where r: "r = Done (JStr u)" and u: "u \<in> set (waiting_ids ?q (db w))" by auto
          from inv u have "stored ?q c (db w) u" by (simp add: store_inv_def)
          then have su: "stored ?q c s' u" using order_refl mv(2) by (rule stored_agree)
          let ?req = "(SET (lockKeyFor (self w) (JStr u)) (lockToken (self w)) (PX (lockTime w) # [NX]),
                       K_lock_set (JStr u) (K_dequeue_locked h (JStr u)))"
          have st': "step e w = lock (JStr u) False (Some (K_dequeue_locked h (JStr u))) ?w1"
            unfolding st r by simp
          have nbs: "nbclient (step e w) = nbclient w @ [?req]"
            unfolding st' by (simp add: lock_sends optCallback_def)
          show ?thesis
          proof (rule step_frame[OF loc cl order_refl, where rest = "nbclient w" and reqs = "[?req]" and obs = "[]"])
            show "keeps_records ?q (db w) (db (step e w))" unfolding db' by (rule mv(2))
            show "store_inv ?q c (A \<union> set (pending_ids (nbclient (step e w)))) (db (step e w))"
              unfolding nbs db' using mv(1) by simp
            show "A \<inter> set (pending_ids (nbclient (step e w))) = {}" unfolding nbs using dis by simp
            show "distinct (pending_ids (nbclient (step e w)))" unfolding nbs using dst by simp
            show "nbclient (step e w) = nbclient w @ [?req]" by (rule nbs)
            show "list_all (breq_ok ?q) (bclient (step e w))" unfolding st' using brqs Cons by simp
            show "list_all (req_ok ?q) [?req]"
              using pf by (simp add: lockKeyFor_def getKeyForId_def del: Rq_keys)
            show "list_all (claim_ok ?q c (db (step e w))) [?req]"
              unfolding db' using su by (simp add: claim_ok_def)
          qed (simp_all add: st')
        qed
      qed
    qed
  next
    case Nb_served
    show ?thesis
    proof (cases "nbclient w")
      case Nil
      with Nb_served have "step e w = w" by (simp add: serve_nb_def)
      with loc inv dis cl show ?thesis
        by (auto simp add: keeps_records_refl intro!: exI[of _ c] exI[of _ "[]"])
    next
      case (Cons p rest)
      obtain cmd k where p: "p = (cmd, k)" by (cases p)
      from rqs Cons p have rq: "req_ok ?q (cmd, k)" by simp
      from cl Cons p have clk: "claim_ok ?q c (db w) (cmd, k)" by simp
      have served: "step e w = invoke k r (w\<lparr>db := s', nbclient := rest\<rparr>)"
        if "exec cmd (db w) = Some (s', r)" for s' r
        using Nb_served Cons p that by (simp add: serve_nb_def reply_nb_def)
      have quiet: ?thesis
        if ex: "exec cmd (db w) = Some (s', r)" and "batch_id cmd = None"
          and "store_inv ?q c (A \<union> set (pending_ids (nbclient w))) s'"
          and "keeps_records ?q (db w) s'"
          and "nbclient (invoke k r (w\<lparr>db := s', nbclient := rest\<rparr>)) = rest"
          and "\<exists>obs. trace (invoke k r (w\<lparr>db := s', nbclient := rest\<rparr>)) = trace w @ obs
                 \<and> list_all (handled_ok ?q c s') obs"
        for s' r
      proof -
        from that(6) obtain obs where
          obs: "trace (invoke k r (w\<lparr>db := s', nbclient := rest\<rparr>)) = trace w @ obs"
               "list_all (handled_ok ?q c s') obs" by auto
        show ?thesis
        proof (rule answered[OF Cons, where obs = obs])
          show "store_inv ?q c (A \<union> set (pending_ids rest)) (db (step e w))"
            unfolding served[OF ex] invoke_db using that(2,3) Cons p by simp
        qed (simp_all add: served[OF ex] invoke_db that obs)
      qed
      show ?thesis
      proof (cases cmd)
        case (BRPOPLPUSH src dst t0)
        with rq show ?thesis by simp
      next
        case (INCR key)
        with rq obtain data cb where key: "key = key_id (keys ?q)" and k: "k = K_enqueue_incr data cb"
          and cb: "plain_cb cb" by auto
        obtain s' r where ex: "exec_incr (key_id (keys ?q)) (db w) = (s', r)"
          by (cases "exec_incr (key_id (keys ?q)) (db w)")
        then have ex': "exec cmd (db w) = Some (s', r)" using INCR key by simp
        have inv0: "store_inv ?q c (A \<union> set (pending_ids rest)) (db w)"
          using inv Cons p INCR by simp
        from store_inv_incr[OF inv0 ex] show ?thesis
        proof (elim disjE conjE exE)
          fix err assume r: "r = Failed err" and s': "s' = db w"
          from cb have wf: "wf_nb_cont k \<or> wf_b_cont k" using k by simp
          show ?thesis
          proof (rule quiet[OF ex'])
            show "nbclient (invoke k r (w\<lparr>db := s', nbclient := rest\<rparr>)) = rest"
              unfolding r using invoke_failed(1)[OF wf] by simp
            show "\<exists>obs. trace (invoke k r (w\<lparr>db := s', nbclient := rest\<rparr>)) = trace w @ obs
                 \<and> list_all (handled_ok ?q c s') obs"
              unfolding r using invoke_failed(2)[OF wf, of err "w\<lparr>db := s', nbclient := rest\<rparr>" ?q c s'] by simp
          qed (use INCR inv s' in \<open>simp_all add: keeps_records_refl\<close>)
        next
          assume r: "r = Done (JNum (c + 1))"
            and inv1: "store_inv ?q (c + 1) (insert (js_string_of_int (c + 1)) (A \<union> set (pending_ids rest))) s'"
            and fresh: "js_string_of_int (c + 1) \<notin> A \<union> set (pending_ids rest)"
            and kr: "keeps_records ?q (db w) s'"
          let ?req = "(enqueue_batch ?q (JNum (c + 1)) data, K_enqueue_exec cb)"
          have st: "step e w = send_nb (enqueue_batch ?q (JNum (c + 1)) data) (K_enqueue_exec cb)
                                  (w\<lparr>db := s', nbclient := rest\<rparr>)"
            unfolding served[OF ex'] k r using enqueue_batch_cong[OF ks pf] by simp
          have nbs: "nbclient (step e w) = rest @ [?req]" unfolding st by simp
          have db': "db (step e w) = s'" unfolding st by simp
          have pend: "pending_ids (rest @ [?req]) = pending_ids rest @ [js_string_of_int (c + 1)]"
            by simp
          have sub: "distinct (pending_ids rest)" "A \<inter> set (pending_ids rest) = {}"
            using dst dis Cons p INCR by auto
          show ?thesis
          proof (rule step_frame[OF loc cl, where c' = "c + 1" and rest = rest and reqs = "[?req]" and obs = "[]"])
            show "keeps_records ?q (db w) (db (step e w))" unfolding db' by (rule kr)
            show "store_inv ?q (c + 1) (A \<union> set (pending_ids (nbclient (step e w)))) (db (step e w))"
              unfolding nbs db' pend using inv1 by simp
            show "A \<inter> set (pending_ids (nbclient (step e w))) = {}"
              unfolding nbs pend using sub fresh by auto
            show "distinct (pending_ids (nbclient (step e w)))"
              unfolding nbs pend using sub fresh by auto
            show "nbclient (step e w) = rest @ [?req]" by (rule nbs)
            show "set rest \<subseteq> set (nbclient w)" using Cons by auto
            show "list_all (req_ok ?q) [?req]" using cb by (auto simp add: enqueue_batch_def)
            show "list_all (claim_ok ?q (c + 1) (db (step e w))) [?req]" by (simp add: claim_ok_def)
            show "list_all (breq_ok ?q) (bclient (step e w))" unfolding st using brqs by simp
          qed (simp_all add: st)
        qed
      next
        case (MULTI cs)
        with rq obtain j data cb where cs: "MULTI cs = enqueue_batch ?q (JNum j) data"
          and k: "k = K_enqueue_exec cb" and cb: "plain_cb cb" by auto
        let ?b = "[LPUSH (key_waiting (keys ?q)) (js_string_of_int j), HMSET (getKeyForId ?q (JNum j)) data]"
        from cs have cs': "cs = ?b" by (simp add: enqueue_batch_def)
        obtain s' r where ex: "exec_multi ?b (db w) = (s', r)" by (cases "exec_multi ?b (db w)")
        then have ex': "exec cmd (db w) = Some (s', r)" using MULTI cs' by simp
        have pend: "pending_ids (nbclient w) = js_string_of_int j # pending_ids rest"
          using Cons p MULTI cs' by simp
        have g: "js_string_of_int j \<in> A \<union> set (pending_ids (nbclient w))" unfolding pend by simp
        note bt = store_inv_batch(1,2)[OF inv g ex]
        have notin: "js_string_of_int j \<notin> A" "js_string_of_int j \<notin> set (pending_ids rest)"
          using dis dst pend by auto
        have inv1: "store_inv ?q c (A \<union> set (pending_ids rest)) s'"
          using bt(1) by (rule store_inv_mono) (use notin pend in auto)
        let ?w1 = "w\<lparr>db := s', nbclient := rest\<rparr>"
        have st: "step e w = invoke k r ?w1" by (rule served[OF ex'])
        have q1: "nbclient (invoke k r ?w1) = rest"
          unfolding k using cb by (cases r; cases cb) simp_all
        have q2: "\<exists>obs. trace (invoke k r ?w1) = trace w @ obs \<and> list_all (handled_ok ?q c s') obs"
          unfolding k using cb by (cases r; cases cb) (simp_all add: handled_ok_def)
        from q2 obtain obs where obs: "trace (invoke k r ?w1) = trace w @ obs"
          "list_all (handled_ok ?q c s') obs" by auto
        show ?thesis
        proof (rule answered[OF Cons, where obs = obs])
          show "store_inv ?q c (A \<union> set (pending_ids rest)) (db (step e w))"
            unfolding st invoke_db using inv1 by simp
          show "keeps_records ?q (db w) (db (step e w))" unfolding st invoke_db using bt(2) by simp
        qed (simp_all add: st invoke_db q1 obs)
      next
        case (SET key v os)
        with rq obtain x ident cb where key: "key = prefix ?q @ x @ '':lock''"
          and k: "k = K_lock_set ident cb" and cbs: "plain_cb cb \<or> (\<exists>h t. cb = K_dequeue_locked h t)"
          by auto
        obtain s' r where ex: "exec_set (prefix ?q @ x @ '':lock'') v os (db w) = (s', r)"
          by (cases "exec_set (prefix ?q @ x @ '':lock'') v os (db w)")
        then have ex': "exec cmd (db w) = Some (s', r)" using SET key by simp
        note ls = store_inv_lock_set[OF inv ex]
        from ls(3) obtain res where r: "r = Done res" ..
        let ?w1 = "w\<lparr>db := s', nbclient := rest\<rparr>"
        have st: "step e w = invoke k r ?w1" by (rule served[OF ex'])
        have none: "batch_id cmd = None" using SET by simp
        from cbs show ?thesis
        proof
          assume pl: "plain_cb cb"
          show ?thesis
          proof (rule quiet[OF ex' none ls(1,2)])
            show "nbclient (invoke k r ?w1) = rest"
              unfolding k using invoke_lock_set_plain(1)[OF pl] by simp
            show "\<exists>obs. trace (invoke k r ?w1) = trace w @ obs \<and> list_all (handled_ok ?q c s') obs"
              unfolding k using invoke_lock_set_plain(2)[OF pl, of ident r ?w1 ?q c s'] by simp
          qed
        next
          assume "\<exists>h t. cb = K_dequeue_locked h t"
          then obtain h t where cb: "cb = K_dequeue_locked h t" by auto
          show ?thesis
          proof (cases "isLocked res")
            case False
            show ?thesis
            proof (rule quiet[OF ex' none ls(1,2)])
              show "nbclient (invoke k r ?w1) = rest"
                unfolding k cb r using False by (simp add: Let_def)
              show "\<exists>obs. trace (invoke k r ?w1) = trace w @ obs \<and> list_all (handled_ok ?q c s') obs"
                unfolding k cb r using False
                by (simp add: Let_def dequeue_final_def emit_error_def handled_ok_def)
            qed
          next
            case True
            let ?req = "(HGETALL (getKeyForId ?q t), K_dequeue_loaded h t)"
            have gk: "getKeyForId (self w) t = getKeyForId ?q t" using pf by (simp add: getKeyForId_def)
            have nbs: "nbclient (step e w) = rest @ [?req]"
              unfolding st k cb r using True gk by (simp add: Let_def setTimeout_def)
            have tr: "trace (step e w) = trace w @ []"
              unfolding st k cb r using True by (simp add: Let_def setTimeout_def)
            have db': "db (step e w) = s'" unfolding st invoke_db by simp
            have sub: "set (pending_ids rest) = set (pending_ids (nbclient w))"
              "pending_ids rest = pending_ids (nbclient w)"
              using Cons p SET by simp_all
            from clk have "claim_ok ?q c s' (cmd, k)" using order_refl ls(2) by (rule claim_ok_mono)
            then have clq: "claim_ok ?q c s' ?req" unfolding k cb by (simp add: claim_ok_def)
            show ?thesis
            proof (rule step_frame[OF loc cl order_refl, where rest = rest and reqs = "[?req]" and obs = "[]"])
              show "keeps_records ?q (db w) (db (step e w))" unfolding db' by (rule ls(2))
              show "store_inv ?q c (A \<union> set (pending_ids (nbclient (step e w)))) (db (step e w))"
                unfolding nbs db' using ls(1) sub by simp
              show "A \<inter> set (pending_ids (nbclient (step e w))) = {}" unfolding nbs using dis sub by simp
              show "distinct (pending_ids (nbclient (step e w)))" unfolding nbs using dst sub by simp
              show "nbclient (step e w) = rest @ [?req]" by (rule nbs)
              show "set rest \<subseteq> set (nbclient w)" using Cons by auto
              show "list_all (req_ok ?q) [?req]" by simp
              show "list_all (claim_ok ?q c (db (step e w))) [?req]" unfolding db' using clq by simp
              show "list_all (breq_ok ?q) (bclient (step e w))" unfolding st using brqs by simp
              show "trace (step e w) = trace w @ []" by (rule tr)
            qed (simp_all add: st)
          qed
        qed
      next
        case (EVAL script numkeys args)
        with rq obtain x v where sc: "script = unlock_script" "numkeys = 1"
          "args = [prefix ?q @ x @ '':lock'', v]" and pl: "plain_cb k" by auto
        obtain s' r where ex: "exec_eval unlock_script 1 [prefix ?q @ x @ '':lock'', v] (db w) = (s', r)"
          by (cases "exec_eval unlock_script 1 [prefix ?q @ x @ '':lock'', v] (db w)")
        then have ex': "exec cmd (db w) = Some (s', r)" using EVAL sc by simp
        note us = store_inv_unlock_script[OF inv ex]
        let ?w1 = "w\<lparr>db := s', nbclient := rest\<rparr>"
        show ?thesis
        proof (rule quiet[OF ex' _ us(1,2)])
          show "batch_id cmd = None" using EVAL by simp
          show "nbclient (invoke k r ?w1) = rest" using plain_invoke(2)[OF pl] by simp
          show "\<exists>obs. trace (invoke k r ?w1) = trace w @ obs \<and> list_all (handled_ok ?q c s') obs"
            using invoke_plain_trace[OF pl, of r ?w1 ?q c s'] by simp
        qed
      next
        case (HGETALL key)
        with rq obtain h t where k: "k = K_dequeue_loaded h t" and key: "key = getKeyForId ?q t" by auto
        from clk k obtain u where t: "t = JStr u" and su: "stored ?q c (db w) u"
          by (auto simp add: claim_ok_def)
        from su obtain rec where rec: "record_of ?q u (db w) = Some rec" "rec \<noteq> []" "u \<in> ids_upto c"
          by (auto simp add: stored_def)
        from rec(1) have sk: "db w (prefix ?q @ u) = Some (RHash rec)"
          by (auto simp add: record_of_def split: option.splits rvalue.splits)
        have ex': "exec cmd (db w) = Some (db w, Done (JObj rec))"
          using HGETALL key t sk by (simp add: exec_hgetall_def getKeyForId_def del: Rq_keys)
        let ?w1 = "w\<lparr>db := db w, nbclient := rest\<rparr>"
        show ?thesis
        proof (rule quiet[OF ex'])
          show "batch_id cmd = None" using HGETALL by simp
          show "store_inv ?q c (A \<union> set (pending_ids (nbclient w))) (db w)" by (rule inv)
          show "keeps_records ?q (db w) (db w)" by (rule keeps_records_refl)
          show "nbclient (invoke k (Done (JObj rec)) ?w1) = rest" unfolding k by simp
          show "\<exists>obs. trace (invoke k (Done (JObj rec)) ?w1) = trace w @ obs \<and> list_all (handled_ok ?q c (db w)) obs"
            unfolding k t using rec by (simp add: dequeue_final_def handled_ok_def)
        qed
      qed
    qed
  qed
qed

subsection \<open>Runs of several instances\<close>

lemma sys_run_simps [simp]:
  "sys_run [] sys = sys" "sys_run (x # xs) sys = sys_run xs (sys_step x sys)"
  "sys_run (xs @ ys) sys = sys_run ys (sys_run xs sys)"
  by (simp_all add: sys_run_def)

lemma local_ok_db [simp]: "local_ok q (w\<lparr>db := s\<rparr>) = local_ok q w"
  by (simp add: local_ok_def)

lemma all_pending_split:
  "all_pending ws = (\<Union>j \<in> - {i}. set (pending_ids (nbclient (ws j)))) \<union> set (pending_ids (nbclient (ws i)))"
  by (auto simp add: all_pending_def)

lemma sys_inv_step:
  assumes inv: "sys_inv (Rq n opts tok) sys" and nf: "\<not> is_foreign e"
  shows "sys_inv (Rq n opts tok) (sys_step (i, e) sys)"
    and "keeps_records (Rq n opts tok) (fst sys) (fst (sys_step (i, e) sys))"
proof -
  let ?q = "Rq n opts tok"
  obtain s ws where sys: "sys = (s, ws)" by (cases sys)
  from inv sys obtain c where st: "store_inv ?q c (all_pending ws) s"
    and cls: "\<And>j. list_all (claim_ok ?q c s) (nbclient (ws j))"
    and hds: "\<And>j. list_all (handled_ok ?q c s) (trace (ws j))"
    and locs: "\<And>j. local_ok ?q (ws j)"
    and disj: "\<And>j k. j \<noteq> k \<Longrightarrow> set (pending_ids (nbclient (ws j))) \<inter> set (pending_ids (nbclient (ws k))) = {}"
    by (auto simp add: sys_inv_def)
  let ?A = "\<Union>j \<in> - {i}. set (pending_ids (nbclient (ws j)))"
  let ?w = "(ws i)\<lparr>db := s\<rparr>"
  let ?w' = "step e ?w"
  have loc: "local_ok ?q ?w" using locs[of i] by simp
  have st': "store_inv ?q c (?A \<union> set (pending_ids (nbclient ?w))) (db ?w)"
    using st all_pending_split[of ws i] by simp
  have dis: "?A \<inter> set (pending_ids (nbclient ?w)) = {}" using disj by auto
  have cl: "list_all (claim_ok ?q c (db ?w)) (nbclient ?w)" using cls[of i] by simp
  from world_step[OF loc st' dis cl nf] obtain c' obs where c': "c \<le> c'"
    and kr: "keeps_records ?q s (db ?w')"
    and inv': "store_inv ?q c' (?A \<union> set (pending_ids (nbclient ?w'))) (db ?w')"
    and dis': "?A \<inter> set (pending_ids (nbclient ?w')) = {}"
    and cl': "list_all (claim_ok ?q c' (db ?w')) (nbclient ?w')"
    and loc': "local_ok ?q ?w'"
    and tr: "trace ?w' = trace (ws i) @ obs" and ob: "list_all (handled_ok ?q c' (db ?w')) obs"
    by auto
  let ?ws' = "ws(i := ?w')"
  have step: "sys_step (i, e) sys = (db ?w', ?ws')" by (simp add: sys)
  show "keeps_records ?q (fst sys) (fst (sys_step (i, e) sys))" using kr by (simp add: sys)
  have A': "(\<Union>j \<in> - {i}. set (pending_ids (nbclient (?ws' j)))) = ?A" by auto
  have ap: "all_pending ?ws' = ?A \<union> set (pending_ids (nbclient ?w'))"
    using all_pending_split[of ?ws' i] unfolding A' by simp
  have 1: "store_inv ?q c' (all_pending ?ws') (db ?w')" unfolding ap by (rule inv')
  have 2: "list_all (claim_ok ?q c' (db ?w')) (nbclient (?ws' j))" for j
    using cl' claims_mono[OF cls[of j] c' kr] by simp
  have 3: "list_all (handled_ok ?q c' (db ?w')) (trace (?ws' j))" for j
    using handled_mono[OF hds[of j] c' kr] handled_mono[OF hds[of i] c' kr] tr ob
    by (cases "j = i") simp_all
  have 4: "local_ok ?q (?ws' j)" for j using loc' locs[of j] by simp
  have 5: "set (pending_ids (nbclient (?ws' j))) \<inter> set (pending_ids (nbclient (?ws' k))) = {}"
    if jk: "j \<noteq> k" for j k
  proof -
    consider "j = i" "k \<noteq> i" | "k = i" "j \<noteq> i" | "j \<noteq> i" "k \<noteq> i" using jk by auto
    then show ?thesis
    proof cases
      case 1
      then show ?thesis using dis' by auto
    next
      case 2
      then show ?thesis using dis' by auto
    next
      case 3
      then show ?thesis using disj[OF jk] by simp
    qed
  qed
  show "sys_inv ?q (sys_step (i, e) sys)"
    unfolding step sys_inv_def using 1 2 3 4 5 by blast
qed

lemma sys_inv_run:
  assumes "sys_inv (Rq n opts tok) sys" and "\<forall>x \<in> set es. \<not> is_foreign (snd x)"
  shows "sys_inv (Rq n opts tok) (sys_run es sys)
       \<and> keeps_records (Rq n opts tok) (fst sys) (fst (sys_run es sys))"
  using assms
proof (induction es arbitrary: sys)
  case Nil
  then show ?case by (simp add: keeps_records_refl)
next
  case (Cons x es)
  obtain i e where x: "x = (i, e)" by (cases x)
  from Cons.prems(2) x have nf: "\<not> is_foreign e" by simp
  note s = sys_inv_step[OF Cons.prems(1) nf, of i]
  from Cons.IH[OF s(1)] Cons.prems(2)
  have "sys_inv (Rq n opts tok) (sys_run es (sys_step (i, e) sys))"
    "keeps_records (Rq n opts tok) (fst (sys_step (i, e) sys)) (fst (sys_run es (sys_step (i, e) sys)))"
    by simp_all
  with s(2) x show ?case by (auto intro: keeps_records_trans)
qed

lemma others_run:
  "\<forall>x \<in> set es. fst x \<noteq> i \<Longrightarrow> snd (sys_run es sys) i = snd sys i"
proof (induction es arbitrary: sys)
  case Nil
  then show ?case by simp
next
  case (Cons x es)
  obtain j e where x: "x = (j, e)" by (cases x)
  obtain s ws where sys: "sys = (s, ws)" by (cases sys)
  from Cons.prems x have "j \<noteq> i" by simp
  then have "snd (sys_step x sys) i = snd sys i" by (simp add: x sys)
  with Cons show ?case by simp
qed

lemma sys_inv_initial:
  "sys_inv (Rq n opts tok) (Map.empty, \<lambda>k. new_world (Rq n (os k) (ts k)) (lt k) (ds k))"
proof -
  let ?ws = "\<lambda>k. new_world (Rq n (os k) (ts k)) (lt k) (ds k)"
  have ap: "all_pending ?ws = {}" by (simp add: all_pending_def new_world_def)
  have "store_inv (Rq n opts tok) 0 (all_pending ?ws) Map.empty"
    unfolding ap by (simp add: store_inv_def id_counter_def waiting_ids_def)
  moreover have "list_all (claim_ok (Rq n opts tok) 0 Map.empty) (nbclient (?ws k))" for k
    by (simp add: new_world_def)
  moreover have "list_all (handled_ok (Rq n opts tok) 0 Map.empty) (trace (?ws k))" for k
    by (simp add: new_world_def)
  moreover have "local_ok (Rq n opts tok) (?ws k)" for k
    by (simp add: new_world_def local_ok_def Rq_def)
  moreover have "set (pending_ids (nbclient (?ws j))) \<inter> set (pending_ids (nbclient (?ws k))) = {}" for j k
    by (simp add: new_world_def)
  ultimately show ?thesis unfolding sys_inv_def by blast
qed

subsection \<open>The two requests of enqueue\<close>

lemma sys_invD:
  assumes "sys_inv q sys"
  shows "\<exists>c. store_inv q c (all_pending (snd sys)) (fst sys)
            \<and> (\<forall>k. list_all (handled_ok q c (fst sys)) (trace (snd sys k)))"
    and "local_ok q (snd sys k)"
proof -
  obtain s ws where sys: "sys = (s, ws)" by (cases sys)
  from assms obtain c where "store_inv q c (all_pending ws) s"
    "\<forall>k. list_all (handled_ok q c s) (trace (ws k))" and l: "\<forall>k. local_ok q (ws k)"
    unfolding sys sys_inv_def by auto
  then show "\<exists>c. store_inv q c (all_pending (snd sys)) (fst sys)
            \<and> (\<forall>k. list_all (handled_ok q c (fst sys)) (trace (snd sys k)))"
    unfolding sys by auto
  from l show "local_ok q (snd sys k)" unfolding sys by simp
qed

lemma sys_enqueue_called:
  assumes "local_ok q (snd sys i)" and "nbclient (snd sys i) = []"
  shows "nbclient (snd (sys_step (i, Call_enqueue data cb) sys) i)
           = [(INCR (key_id (keys q)), K_enqueue_incr data (optCallback (map_option K_user cb)))]"
proof -
  obtain s ws where sys: "sys = (s, ws)" by (cases sys)
  from assms show ?thesis unfolding sys by (simp add: enqueue_def local_ok_def)
qed

lemma sys_increment_served:
  assumes "nbclient (snd sys i) = [(INCR key, K_enqueue_incr data cb')]"
  shows "fst (sys_step (i, Nb_served) sys) = fst (exec_incr key (fst sys))"
    and "snd (exec_incr key (fst sys)) = Done ident \<Longrightarrow>
           nbclient (snd (sys_step (i, Nb_served) sys) i)
             = [(enqueue_batch (self (snd sys i)) ident data, K_enqueue_exec cb')]"
proof -
  obtain s ws where sys: "sys = (s, ws)" by (cases sys)
  obtain s' r where ex: "exec_incr key s = (s', r)" by (cases "exec_incr key s")
  from assms have nb: "nbclient (ws i) = [(INCR key, K_enqueue_incr data cb')]" unfolding sys by simp
  have st: "step Nb_served ((ws i)\<lparr>db := s\<rparr>)
              = invoke (K_enqueue_incr data cb') r ((ws i)\<lparr>db := s', nbclient := []\<rparr>)"
    using nb ex by (simp add: serve_nb_def reply_nb_def)
  show "fst (sys_step (i, Nb_served) sys) = fst (exec_incr key (fst sys))"
    unfolding sys sys_step.simps st fst_conv invoke_db ex by simp
  assume "snd (exec_incr key (fst sys)) = Done ident"
  then have r: "r = Done ident" unfolding sys using ex by simp
  show "nbclient (snd (sys_step (i, Nb_served) sys) i)
             = [(enqueue_batch (self (snd sys i)) ident data, K_enqueue_exec cb')]"
    unfolding sys sys_step.simps st r by simp
qed

lemma sys_batch_served:
  assumes "nbclient (snd sys i) = (MULTI cs, k) # rest"
  shows "fst (sys_step (i, Nb_served) sys) = fst (exec_multi cs (fst sys))"
proof -
  obtain s ws where sys: "sys = (s, ws)" by (cases sys)
  obtain s' r where ex: "exec_multi cs s = (s', r)" by (cases "exec_multi cs s")
  from assms have nb: "nbclient (ws i) = (MULTI cs, k) # rest" unfolding sys by simp
  have st: "step Nb_served ((ws i)\<lparr>db := s\<rparr>) = invoke k r ((ws i)\<lparr>db := s', nbclient := rest\<rparr>)"
    using nb ex by (simp add: serve_nb_def reply_nb_def)
  show ?thesis unfolding sys sys_step.simps st fst_conv invoke_db ex by simp
qed

lemma pending_member:
  assumes "nbclient (ws i) = [(enqueue_batch q (JNum j) data, k)]"
  shows "js_string_of_int j \<in> all_pending ws"
proof -
  from assms have "js_string_of_int j \<in> set (pending_ids (nbclient (ws i)))" by simp
  then show ?thesis unfolding all_pending_def by blast
qed

subsection \<open>One call of enqueue among the other instances\<close>

lemma count_list_fresh: "x \<notin> set xs \<Longrightarrow> count_list (x # xs) x = 1"
  by (simp add: count_list_0_iff)

lemma publish_run:
  assumes inv0: "sys_inv (Rq n opts tok) sys0"
    and idle: "nbclient (snd sys0 i) = []"
    and oth: "\<forall>x \<in> set es1 \<union> set es2. fst x \<noteq> i \<and> \<not> is_foreign (snd x)"
    and nf3: "\<forall>x \<in> set es3. \<not> is_foreign (snd x)"
  shows "fst (sys_run ((i, Call_enqueue data cb) # es1 @ [(i, Nb_served)]) sys0)
           = fst (exec_incr (key_id (keys (Rq n opts tok)))
                   (fst (sys_run ((i, Call_enqueue data cb) # es1) sys0)))"
    and "snd (exec_incr (key_id (keys (Rq n opts tok)))
                (fst (sys_run ((i, Call_enqueue data cb) # es1) sys0))) = Done (JNum j) \<Longrightarrow>
         js_string_of_int j \<notin> set (waiting_ids (Rq n opts tok)
              (fst (sys_run ((i, Call_enqueue data cb) # es1 @ (i, Nb_served) # es2) sys0)))
         \<and> record_of (Rq n opts tok) (js_string_of_int j)
              (fst (sys_run ((i, Call_enqueue data cb) # es1 @ (i, Nb_served) # es2) sys0)) = None
         \<and> (\<exists>r. exec (enqueue_batch (Rq n opts tok) (JNum j) data)
                    (fst (sys_run ((i, Call_enqueue data cb) # es1 @ (i, Nb_served) # es2) sys0))
                  = Some (fst (sys_run ((i, Call_enqueue data cb) # es1 @ (i, Nb_served) # es2
                                          @ [(i, Nb_served)]) sys0), r)
              \<and> (data = [] \<longrightarrow>
                   fst (sys_run ((i, Call_enqueue data cb) # es1 @ (i, Nb_served) # es2 @ [(i, Nb_served)]) sys0)
                     = fst (sys_run ((i, Call_enqueue data cb) # es1 @ (i, Nb_served) # es2) sys0))
              \<and> (data \<noteq> []
                  \<and> (fst (sys_run ((i, Call_enqueue data cb) # es1 @ (i, Nb_served) # es2) sys0)
                          (key_waiting (keys (Rq n opts tok))) = None
                       \<or> (\<exists>xs. fst (sys_run ((i, Call_enqueue data cb) # es1 @ (i, Nb_served) # es2) sys0)
                                  (key_waiting (keys (Rq n opts tok))) = Some (RList xs))) \<longrightarrow>
                   (\<exists>m. r = Done (JArr [JNum m, JStr ''OK''])))
              \<and> (\<forall>rs. r = Done (JArr rs) \<and> batch_succeeded rs \<longrightarrow>
                    waiting_ids (Rq n opts tok)
                        (fst (sys_run ((i, Call_enqueue data cb) # es1 @ (i, Nb_served) # es2
                                          @ [(i, Nb_served)]) sys0))
                      = js_string_of_int j # waiting_ids (Rq n opts tok)
                          (fst (sys_run ((i, Call_enqueue data cb) # es1 @ (i, Nb_served) # es2) sys0))
                    \<and> count_list (waiting_ids (Rq n opts tok)
                        (fst (sys_run ((i, Call_enqueue data cb) # es1 @ (i, Nb_served) # es2
                                          @ [(i, Nb_served)]) sys0))) (js_string_of_int j) = 1
                    \<and> record_of (Rq n opts tok) (js_string_of_int j)
                        (fst (sys_run ((i, Call_enqueue data cb) # es1 @ (i, Nb_served) # es2
                                          @ [(i, Nb_served)]) sys0))
                      = Some (fold hset data [])
                    \<and> map_of (fold hset data []) = map_of (rev data)
                    \<and> record_of (Rq n opts tok) (js_string_of_int j)
                        (fst (sys_run ((i, Call_enqueue data cb) # es1 @ (i, Nb_served) # es2
                                          @ (i, Nb_served) # es3) sys0))
                      = Some (fold hset data [])))"
proof -
  let ?q = "Rq n opts tok"
  let ?cb = "optCallback (map_option K_user cb)"
  define S0 where "S0 = sys_step (i, Call_enqueue data cb) sys0"
  define S1 where "S1 = sys_run es1 S0"
  define S2a where "S2a = sys_step (i, Nb_served) S1"
  define S2 where "S2 = sys_run es2 S2a"
  define S3 where "S3 = sys_step (i, Nb_served) S2"
  define S4 where "S4 = sys_run es3 S3"
  have runs: "sys_run ((i, Call_enqueue data cb) # es1) sys0 = S1"
    "sys_run ((i, Call_enqueue data cb) # es1 @ [(i, Nb_served)]) sys0 = S2a"
    "sys_run ((i, Call_enqueue data cb) # es1 @ (i, Nb_served) # es2) sys0 = S2"
    "sys_run ((i, Call_enqueue data cb) # es1 @ (i, Nb_served) # es2 @ [(i, Nb_served)]) sys0 = S3"
    "sys_run ((i, Call_enqueue data cb) # es1 @ (i, Nb_served) # es2 @ (i, Nb_served) # es3) sys0 = S4"
    by (simp_all add: S0_def S1_def S2a_def S2_def S3_def S4_def)
  from oth have o1: "\<forall>x \<in> set es1. fst x \<noteq> i" and n1: "\<forall>x \<in> set es1. \<not> is_foreign (snd x)"
    and o2: "\<forall>x \<in> set es2. fst x \<noteq> i" and n2: "\<forall>x \<in> set es2. \<not> is_foreign (snd x)"
    by auto
  have i0: "sys_inv ?q S0" unfolding S0_def by (rule sys_inv_step(1)[OF inv0]) simp
  have nb0: "nbclient (snd S0 i) = [(INCR (key_id (keys ?q)), K_enqueue_incr data ?cb)]"
    unfolding S0_def using sys_invD(2)[OF inv0] idle by (rule sys_enqueue_called)
  have i1: "sys_inv ?q S1" unfolding S1_def using sys_inv_run[OF i0 n1] by simp
  have w1: "snd S1 i = snd S0 i" unfolding S1_def using o1 by (rule others_run)
  have nb1: "nbclient (snd S1 i) = [(INCR (key_id (keys ?q)), K_enqueue_incr data ?cb)]"
    unfolding w1 by (rule nb0)
  show "fst (sys_run ((i, Call_enqueue data cb) # es1 @ [(i, Nb_served)]) sys0)
           = fst (exec_incr (key_id (keys ?q)) (fst (sys_run ((i, Call_enqueue data cb) # es1) sys0)))"
    unfolding runs S2a_def using nb1 by (rule sys_increment_served(1))
  assume "snd (exec_incr (key_id (keys ?q)) (fst (sys_run ((i, Call_enqueue data cb) # es1) sys0))) = Done (JNum j)"
  then have r1: "snd (exec_incr (key_id (keys ?q)) (fst S1)) = Done (JNum j)" unfolding runs .
  have l1: "local_ok ?q (snd S1 i)" using i1 by (rule sys_invD(2))
  then have same: "enqueue_batch (self (snd S1 i)) (JNum j) data = enqueue_batch ?q (JNum j) data"
    by (intro enqueue_batch_cong) (simp_all add: local_ok_def)
  have nb2a: "nbclient (snd S2a i) = [(enqueue_batch ?q (JNum j) data, K_enqueue_exec ?cb)]"
    unfolding S2a_def using sys_increment_served(2)[OF nb1 r1] same by simp
  have i2a: "sys_inv ?q S2a" unfolding S2a_def by (rule sys_inv_step(1)[OF i1]) simp
  have i2: "sys_inv ?q S2" unfolding S2_def using sys_inv_run[OF i2a n2] by simp
  have w2: "snd S2 i = snd S2a i" unfolding S2_def using o2 by (rule others_run)
  have nb2: "nbclient (snd S2 i) = [(enqueue_batch ?q (JNum j) data, K_enqueue_exec ?cb)]"
    unfolding w2 by (rule nb2a)
  from sys_invD(1)[OF i2] obtain c where st: "store_inv ?q c (all_pending (snd S2)) (fst S2)" by auto
  have g: "js_string_of_int j \<in> all_pending (snd S2)" using nb2 by (rule pending_member)
  from st g have fresh: "js_string_of_int j \<notin> set (waiting_ids ?q (fst S2))"
    and free: "fst S2 (prefix ?q @ js_string_of_int j) = None"
    by (simp_all add: store_inv_def)
  from free have norec: "record_of ?q (js_string_of_int j) (fst S2) = None"
    by (simp add: record_of_def)
  let ?b = "[LPUSH (key_waiting (keys ?q)) (js_string_of_int j), HMSET (getKeyForId ?q (JNum j)) data]"
  obtain s3 r where ex: "exec_multi ?b (fst S2) = (s3, r)" by (cases "exec_multi ?b (fst S2)")
  have nb2': "nbclient (snd S2 i) = (MULTI ?b, K_enqueue_exec ?cb) # []"
    using nb2 by (simp add: enqueue_batch_def)
  have s3: "fst S3 = s3" unfolding S3_def using sys_batch_served[OF nb2'] ex by simp
  have ex': "exec (enqueue_batch ?q (JNum j) data) (fst S2) = Some (fst S3, r)"
    using ex s3 by (simp add: enqueue_batch_def)
  note bt = store_inv_batch[OF st g ex]
  have i3: "sys_inv ?q S3" unfolding S3_def by (rule sys_inv_step(1)[OF i2]) simp
  have k4: "keeps_records ?q (fst S3) (fst S4)" unfolding S4_def using sys_inv_run[OF i3 nf3] by simp
  have empty: "data = [] \<longrightarrow> fst S3 = fst S2" using bt(5) s3 by simp
  have compl: "data \<noteq> [] \<and> (fst S2 (key_waiting (keys ?q)) = None
                      \<or> (\<exists>xs. fst S2 (key_waiting (keys ?q)) = Some (RList xs)))
                 \<longrightarrow> (\<exists>m. r = Done (JArr [JNum m, JStr ''OK'']))"
  proof
    assume a: "data \<noteq> [] \<and> (fst S2 (key_waiting (keys ?q)) = None
                      \<or> (\<exists>xs. fst S2 (key_waiting (keys ?q)) = Some (RList xs)))"
    then have "r = Done (JArr [JNum (1 + int (length (waiting_ids ?q (fst S2)))), JStr ''OK''])"
      by (intro bt(6)) simp_all
    then show "\<exists>m. r = Done (JArr [JNum m, JStr ''OK''])" by blast
  qed
  have succ: "\<forall>rs. r = Done (JArr rs) \<and> batch_succeeded rs \<longrightarrow>
      waiting_ids ?q (fst S3) = js_string_of_int j # waiting_ids ?q (fst S2)
      \<and> count_list (waiting_ids ?q (fst S3)) (js_string_of_int j) = 1
      \<and> record_of ?q (js_string_of_int j) (fst S3) = Some (fold hset data [])
      \<and> map_of (fold hset data []) = map_of (rev data)
      \<and> record_of ?q (js_string_of_int j) (fst S4) = Some (fold hset data [])"
  proof (intro allI impI)
    fix rs assume a: "r = Done (JArr rs) \<and> batch_succeeded rs"
    then have b: "waiting_ids ?q s3 = js_string_of_int j # waiting_ids ?q (fst S2)"
      "record_of ?q (js_string_of_int j) s3 = Some (fold hset data [])"
      using bt(4)[of rs] by simp_all
    have cnt: "count_list (waiting_ids ?q (fst S3)) (js_string_of_int j) = 1"
      unfolding s3 b(1) using fresh by (rule count_list_fresh)
    from b(2) have "s3 (getKeyForId ?q (JNum j)) = Some (RHash (fold hset data []))"
      by (auto simp add: record_of_def getKeyForId_def split: option.splits rvalue.splits)
    with k4 have "fst S4 (getKeyForId ?q (JNum j)) = Some (RHash (fold hset data []))"
      unfolding s3 keeps_records_def by blast
    then have later: "record_of ?q (js_string_of_int j) (fst S4) = Some (fold hset data [])"
      by (simp add: record_of_def getKeyForId_def)
    have m: "map_of (fold hset data []) = map_of (rev data)" by (simp add: map_of_fold_hset)
    from b cnt later m show "waiting_ids ?q (fst S3) = js_string_of_int j # waiting_ids ?q (fst S2)
      \<and> count_list (waiting_ids ?q (fst S3)) (js_string_of_int j) = 1
      \<and> record_of ?q (js_string_of_int j) (fst S3) = Some (fold hset data [])
      \<and> map_of (fold hset data []) = map_of (rev data)
      \<and> record_of ?q (js_string_of_int j) (fst S4) = Some (fold hset data [])"
      unfolding s3 by simp
  qed
  from ex' empty compl succ have "\<exists>r. exec (enqueue_batch ?q (JNum j) data) (fst S2) = Some (fst S3, r)
      \<and> (data = [] \<longrightarrow> fst S3 = fst S2)
      \<and> (data \<noteq> [] \<and> (fst S2 (key_waiting (keys ?q)) = None
                      \<or> (\<exists>xs. fst S2 (key_waiting (keys ?q)) = Some (RList xs)))
                 \<longrightarrow> (\<exists>m. r = Done (JArr [JNum m, JStr ''OK''])))
      \<and> (\<forall>rs. r = Done (JArr rs) \<and> batch_succeeded rs \<longrightarrow>
      waiting_ids ?q (fst S3) = js_string_of_int j # waiting_ids ?q (fst S2)
      \<and> count_list (waiting_ids ?q (fst S3)) (js_string_of_int j) = 1
      \<and> record_of ?q (js_string_of_int j) (fst S3) = Some (fold hset data [])
      \<and> map_of (fold hset data []) = map_of (rev data)
      \<and> record_of ?q (js_string_of_int j) (fst S4) = Some (fold hset data []))"
    by (intro exI[of _ r] conjI)
  with fresh norec show "js_string_of_int j \<notin> set (waiting_ids (Rq n opts tok)
              (fst (sys_run ((i, Call_enqueue data cb) # es1 @ (i, Nb_served) # es2) sys0)))
         \<and> record_of (Rq n opts tok) (js_string_of_int j)
              (fst (sys_run ((i, Call_enqueue data cb) # es1 @ (i, Nb_served) # es2) sys0)) = None
         \<and> (\<exists>r. exec (enqueue_batch (Rq n opts tok) (JNum j) data)
                    (fst (sys_run ((i, Call_enqueue data cb) # es1 @ (i, Nb_served) # es2) sys0))
                  = Some (fst (sys_run ((i, Call_enqueue data cb) # es1 @ (i, Nb_served) # es2
                                          @ [(i, Nb_served)]) sys0), r)
              \<and> (data = [] \<longrightarrow>
                   fst (sys_run ((i, Call_enqueue data cb) # es1 @ (i, Nb_served) # es2 @ [(i, Nb_served)]) sys0)
                     = fst (sys_run ((i, Call_enqueue data cb) # es1 @ (i, Nb_served) # es2) sys0))
              \<and> (data \<noteq> []
                  \<and> (fst (sys_run ((i, Call_enqueue data cb) # es1 @ (i, Nb_served) # es2) sys0)
                          (key_waiting (keys (Rq n opts tok))) = None
                       \<or> (\<exists>xs. fst (sys_run ((i, Call_enqueue data cb) # es1 @ (i, Nb_served) # es2) sys0)
                                  (key_waiting (keys (Rq n opts tok))) = Some (RList xs))) \<longrightarrow>
                   (\<exists>m. r = Done (JArr [JNum m, JStr ''OK''])))
              \<and> (\<forall>rs. r = Done (JArr rs) \<and> batch_succeeded rs \<longrightarrow>
                    waiting_ids (Rq n opts tok)
                        (fst (sys_run ((i, Call_enqueue data cb) # es1 @ (i, Nb_served) # es2
                                          @ [(i, Nb_served)]) sys0))
                      = js_string_of_int j # waiting_ids (Rq n opts tok)
                          (fst (sys_run ((i, Call_enqueue data cb) # es1 @ (i, Nb_served) # es2) sys0))
                    \<and> count_list (waiting_ids (Rq n opts tok)
                        (fst (sys_run ((i, Call_enqueue data cb) # es1 @ (i, Nb_served) # es2
                                          @ [(i, Nb_served)]) sys0))) (js_string_of_int j) = 1
                    \<and> record_of (Rq n opts tok) (js_string_of_int j)
                        (fst (sys_run ((i, Call_enqueue data cb) # es1 @ (i, Nb_served) # es2
                                          @ [(i, Nb_served)]) sys0))
                      = Some (fold hset data [])
                    \<and> map_of (fold hset data []) = map_of (rev data)
                    \<and> record_of (Rq n opts tok) (js_string_of_int j)
                        (fst (sys_run ((i, Call_enqueue data cb) # es1 @ (i, Nb_served) # es2
                                          @ (i, Nb_served) # es3) sys0))
                      = Some (fold hset data [])))"
    unfolding runs by (intro conjI)
qed

subsection \<open>What the invariant gives the consumers\<close>

lemma inv_consequences:
  assumes "sys_inv (Rq n opts tok) S"
  shows "distinct (waiting_ids (Rq n opts tok) (fst S))"
    and "\<forall>t \<in> set (waiting_ids (Rq n opts tok) (fst S)).
           \<exists>rec. record_of (Rq n opts tok) t (fst S) = Some rec \<and> rec \<noteq> []"
    and "\<forall>s' v. exec (BRPOPLPUSH (key_waiting (keys (Rq n opts tok))) (key_working (keys (Rq n opts tok))) 0) (fst S)
                   = Some (s', Done v) \<longrightarrow>
           (\<exists>u rec. v = JStr u \<and> u \<in> set (waiting_ids (Rq n opts tok) (fst S))
                     \<and> record_of (Rq n opts tok) u s' = Some rec \<and> rec \<noteq> [])"
    and "\<forall>k h t. Handled h t \<in> set (trace (snd S k)) \<longrightarrow>
           (\<exists>u rec. task_id t = JStr u \<and> task_data t = JObj rec \<and> rec \<noteq> []
                     \<and> record_of (Rq n opts tok) u (fst S) = Some rec)"
proof -
  let ?q = "Rq n opts tok"
  from sys_invD(1)[OF assms] obtain c where st: "store_inv ?q c (all_pending (snd S)) (fst S)"
    and hd: "\<And>k. list_all (handled_ok ?q c (fst S)) (trace (snd S k))" by auto
  from st show "distinct (waiting_ids ?q (fst S))" by (simp add: store_inv_def)
  from st have sd: "\<And>t. t \<in> set (waiting_ids ?q (fst S)) \<Longrightarrow> stored ?q c (fst S) t"
    by (simp add: store_inv_def)
  then show "\<forall>t \<in> set (waiting_ids ?q (fst S)). \<exists>rec. record_of ?q t (fst S) = Some rec \<and> rec \<noteq> []"
    by (auto simp add: stored_def)
  show "\<forall>s' v. exec (BRPOPLPUSH (key_waiting (keys ?q)) (key_working (keys ?q)) 0) (fst S)
                   = Some (s', Done v) \<longrightarrow>
           (\<exists>u rec. v = JStr u \<and> u \<in> set (waiting_ids ?q (fst S))
                     \<and> record_of ?q u s' = Some rec \<and> rec \<noteq> [])"
  proof (intro allI impI)
    fix s' v
    assume "exec (BRPOPLPUSH (key_waiting (keys ?q)) (key_working (keys ?q)) 0) (fst S) = Some (s', Done v)"
    then have ex: "exec_brpoplpush (key_waiting (keys ?q)) (key_working (keys ?q)) (fst S) = Some (s', Done v)"
      by simp
    note mv = store_inv_move[OF st ex]
    from mv(3) obtain u where u: "v = JStr u" "u \<in> set (waiting_ids ?q (fst S))" by auto
    from sd[OF u(2)] have "stored ?q c s' u" using order_refl mv(2) by (rule stored_agree)
    with u show "\<exists>u rec. v = JStr u \<and> u \<in> set (waiting_ids ?q (fst S))
                     \<and> record_of ?q u s' = Some rec \<and> rec \<noteq> []"
      by (auto simp add: stored_def)
  qed
  show "\<forall>k h t. Handled h t \<in> set (trace (snd S k)) \<longrightarrow>
           (\<exists>u rec. task_id t = JStr u \<and> task_data t = JObj rec \<and> rec \<noteq> []
                     \<and> record_of ?q u (fst S) = Some rec)"
  proof (intro allI impI)
    fix k h t assume "Handled h t \<in> set (trace (snd S k))"
    with hd[of k] have "handled_ok ?q c (fst S) (Handled h t)" by (simp add: list_all_iff)
    then show "\<exists>u rec. task_id t = JStr u \<and> task_data t = JObj rec \<and> rec \<noteq> []
                     \<and> record_of ?q u (fst S) = Some rec"
      by (auto simp add: handled_ok_def)
  qed
qed

subsection \<open>A producer and a consumer on the queue of the tests\<close>

lemmas sys_eval = sys_run_def enqueue_def send_nb_def serve_nb_def reply_nb_def serve_b_def reply_b_def
  exec_incr_def exec_multi_def enqueue_batch_def getKeyForId_def dequeue_def send_b_def
  exec_brpoplpush_def Let_def lock_def lockKeyFor_def clearTimeout_def lock_args_def exec_set_def
  optCallback_def isLocked_def setTimeout_def exec_hgetall_def dequeue_final_def

lemma q_test_sent:
  "fst (sys_run [(0, Call_enqueue [(''foo'', ''bar'')] None), (1, Call_dequeue (Fn 7))]
          (Map.empty, \<lambda>k. w_test)) = Map.empty"
  by (simp add: sys_eval)

lemma q_test_before:
  "fst (sys_run [(0, Call_enqueue [(''foo'', ''bar'')] None), (1, Call_dequeue (Fn 7)), (0, Nb_served),
                 (1, B_served)] (Map.empty, \<lambda>k. w_test))
     = Map.empty(''rq:test:id'' \<mapsto> RStr ''1'' None)"
  by (simp add: sys_eval)

lemma q_test_after:
  "fst (sys_run [(0, Call_enqueue [(''foo'', ''bar'')] None), (1, Call_dequeue (Fn 7)), (0, Nb_served),
                 (1, B_served), (0, Nb_served)] (Map.empty, \<lambda>k. w_test))
     = Map.empty(''rq:test:id'' \<mapsto> RStr ''1'' None, ''rq:test:waiting'' \<mapsto> RList [''1''],
                 ''rq:test:1'' \<mapsto> RHash [(''foo'', ''bar'')])"
  by (simp add: sys_eval)

lemma q_test_later:
  "fst (sys_run [(0, Call_enqueue [(''foo'', ''bar'')] None), (1, Call_dequeue (Fn 7)), (0, Nb_served),
                 (1, B_served), (0, Nb_served), (1, B_served), (1, Nb_served), (1, Nb_served)]
          (Map.empty, \<lambda>k. w_test)) ''rq:test:1'' = Some (RHash [(''foo'', ''bar'')])"
  "trace (snd (sys_run [(0, Call_enqueue [(''foo'', ''bar'')] None), (1, Call_dequeue (Fn 7)), (0, Nb_served),
                 (1, B_served), (0, Nb_served), (1, B_served), (1, Nb_served), (1, Nb_served)]
          (Map.empty, \<lambda>k. w_test)) 1)
     = [Handled 7 \<lparr>task_id = JStr ''1'', task_data = JObj [(''foo'', ''bar'')]\<rparr>]"
  by (simp_all add: sys_eval)

lemma q_test_sys_inv:
  "sys_inv (Rq ''test'' \<lparr>opt_host = None, opt_port = None, opt_retry = None\<rparr> ''tok'')
           (Map.empty, \<lambda>k. w_test)"
  using sys_inv_initial[of "''test''" "\<lparr>opt_host = None, opt_port = None, opt_retry = None\<rparr>" "''tok''"
          "\<lambda>k. \<lparr>opt_host = None, opt_port = None, opt_retry = None\<rparr>" "\<lambda>k. ''tok''"
          "\<lambda>k. 1000" "\<lambda>k. Map.empty"]
  by (simp add: w_test_def q_test_def)



lemmas run_eval = run_def lock_def unlock_def Let_def send_nb_def clearTimeout_def lock_args_def
  optCallback_def serve_nb_def reply_nb_def exec_set_def isLocked_def setTimeout_def
  emit_error_def couldNotLock_def lockKeyFor_def getKeyForId_def fire_def

lemma two_locks_run:
  "run [Call_lock (JNum 1) False None, Call_lock (JNum 2) False None, Nb_served, Nb_served] w_test =
     w_test\<lparr>lockTimeout := Some 1, timers := [(0, 500, JNum 1), (1, 500, JNum 2)], next_timer := 2,
            db := Map.empty(''rq:test:1:lock'' \<mapsto> RStr ''tok'' (Some 1000),
                            ''rq:test:2:lock'' \<mapsto> RStr ''tok'' (Some 1000))\<rparr>"
  by (simp add: run_eval)

lemma overlapped_renewal_run:
  "run [Call_lock (JNum 1) False None, Call_lock (JNum 1) True None, Nb_served,
        Nb_failed (StoreError ''down'')] w_test =
     w_test\<lparr>lockTimeout := Some 0, timers := [(0, 500, JNum 1)], next_timer := 1,
            db := Map.empty(''rq:test:1:lock'' \<mapsto> RStr ''tok'' (Some 1000)),
            trace := [Emitted_error (CouldNotLock (JNum 1))]\<rparr>"
  by (simp add: run_eval)

lemma overlapped_renewal_run_fired:
  "run [Call_lock (JNum 1) False None, Call_lock (JNum 1) True None, Nb_served,
        Nb_failed (StoreError ''down''), Fire 0] w_test =
     w_test\<lparr>lockTimeout := Some 0, timers := [], next_timer := 1,
            db := Map.empty(''rq:test:1:lock'' \<mapsto> RStr ''tok'' (Some 1000)),
            trace := [Emitted_error (CouldNotLock (JNum 1))],
            nbclient := [(SET ''rq:test:1:lock'' ''tok'' [PX 1000], K_lock_set (JNum 1) K_none)]\<rparr>"
  by (simp add: run_eval)

lemma unlock_race_run:
  "run [Call_lock (JNum 1) False None, Nb_served, Fire 0, Call_unlock (JNum 1) None,
        Nb_served, Nb_served] w_test =
     w_test\<lparr>lockTimeout := Some 1, timers := [(1, 500, JNum 1)], next_timer := 2,
            db := (Map.empty(''rq:test:1:lock'' \<mapsto> RStr ''tok'' (Some 1000)))(''rq:test:1:lock'' := None)\<rparr>"
  using unlock_script_exec[of "''rq:test:1:lock''" "''tok''" "Map.empty(''rq:test:1:lock'' \<mapsto> RStr ''tok'' (Some 1000))"]
  by (simp add: run_eval)


lemma unlock_race_run_renewed:
  "run [Call_lock (JNum 1) False None, Nb_served, Fire 0, Call_unlock (JNum 1) None,
        Nb_served, Nb_served, Fire 1, Nb_served] w_test =
     w_test\<lparr>lockTimeout := Some 2, timers := [(2, 500, JNum 1)], next_timer := 3,
            db := ((Map.empty(''rq:test:1:lock'' \<mapsto> RStr ''tok'' (Some 1000)))(''rq:test:1:lock'' := None))
                    (''rq:test:1:lock'' \<mapsto> RStr ''tok'' (Some 1000))\<rparr>"
  using unlock_script_exec[of "''rq:test:1:lock''" "''tok''" "Map.empty(''rq:test:1:lock'' \<mapsto> RStr ''tok'' (Some 1000))"]
  by (simp add: run_eval)

lemmas script_eval = exec_eval_def unlock_script_def lua_index_def lua_truthy_def

lemma two_locks_released_run:
  "run [Call_lock (JNum 1) False None, Call_lock (JNum 2) False None, Nb_served, Nb_served,
        Call_unlock (JNum 1) None, Call_unlock (JNum 2) None, Nb_served, Nb_served] w_test =
     w_test\<lparr>lockTimeout := Some 1, timers := [(0, 500, JNum 1)], next_timer := 2,
            db := (Map.empty(''rq:test:1:lock'' \<mapsto> RStr ''tok'' (Some 1000),
                             ''rq:test:2:lock'' \<mapsto> RStr ''tok'' (Some 1000)))
                    (''rq:test:1:lock'' := None, ''rq:test:2:lock'' := None)\<rparr>"
  by (simp add: run_eval script_eval)

lemma two_locks_released_run_fired:
  "run [Call_lock (JNum 1) False None, Call_lock (JNum 2) False None, Nb_served, Nb_served,
        Call_unlock (JNum 1) None, Call_unlock (JNum 2) None, Nb_served, Nb_served,
        Fire 0, Nb_served] w_test =
     w_test\<lparr>lockTimeout := Some 2, timers := [(2, 500, JNum 1)], next_timer := 3,
            db := ((Map.empty(''rq:test:1:lock'' \<mapsto> RStr ''tok'' (Some 1000),
                              ''rq:test:2:lock'' \<mapsto> RStr ''tok'' (Some 1000)))
                    (''rq:test:1:lock'' := None, ''rq:test:2:lock'' := None))
                    (''rq:test:1:lock'' \<mapsto> RStr ''tok'' (Some 1000))\<rparr>"
  by (simp add: run_eval script_eval)

section \<open>Renewal timers\<close>

text \<open>
  What the callback of the set of \<open>lock\<close> does, branch by branch. \<open>lock\<close> registers
  \<open>K_lock_set\<close> as the callback of its set. When the set is answered \<open>'OK'\<close>, a
  timer is armed with a delay of half of \<open>config.lockTime\<close>, and a pending timer that
  fires calls \<open>lock\<close> for the same id with \<open>renew = true\<close>. When the set is answered
  anything else, or fails, a "could not lock" error is emitted for the id and the
  callback arms no timer.
\<close>

lemma fire_calls_lock:
  "find (\<lambda>t. fst t = h) (timers w) = Some (h, d, ident) \<Longrightarrow>
   fire h w = lock ident True None (w\<lparr>timers := filter (\<lambda>t. fst t \<noteq> h) (timers w)\<rparr>)"
  by (simp add: fire_def)

lemma lock_reply_branches:
  "nbclient (lock ident renew cb w) =
     nbclient w @ [(SET (lockKeyFor (self w) ident) (lockToken (self w)) (lock_args w renew),
                    K_lock_set ident (optCallback cb))]"
  "isLocked (res_of r) \<Longrightarrow>
     invoke (K_lock_set ident k) r w =
       invoke k r (w\<lparr>timers := timers w @ [(next_timer w, of_nat (lockTime w) / 2, ident)],
                      next_timer := next_timer w + 1,
                      lockTimeout := Some (next_timer w)\<rparr>)"
  "\<not> isLocked (res_of r) \<Longrightarrow>
     invoke (K_lock_set ident k) r w = invoke k r (emit_error (CouldNotLock ident) w)"
  "\<not> isLocked (res_of r) \<Longrightarrow> plain_cb k \<Longrightarrow>
     timers (invoke (K_lock_set ident k) r w) = timers w"
  by (simp_all add: lock_def Let_def setTimeout_def couldNotLock_def plain_invoke)

text \<open>
  C3: the code at the failing input. \<open>lock\<close> is called for task 1 and, before its set
  is answered, called again for task 1 as a renewal; the renewal finds no timer to
  clear. The first set succeeds and its callback arms a timer. The set of the renewal
  fails: a failed renewal, reported by a "could not lock" error, which arms no timer.
  The timer armed by the first callback is still pending, and when it fires a further
  renewal of task 1 is sent.
\<close>

theorem failed_renewal_then_renewal:
  "trace (run [Call_lock (JNum 1) False None, Call_lock (JNum 1) True None, Nb_served,
               Nb_failed (StoreError ''down'')] w_test)
     = [Emitted_error (CouldNotLock (JNum 1))]
   \<and> timers (run [Call_lock (JNum 1) False None, Call_lock (JNum 1) True None, Nb_served,
               Nb_failed (StoreError ''down'')] w_test)
     = [(0, 500, JNum 1)]
   \<and> nbclient (run [Call_lock (JNum 1) False None, Call_lock (JNum 1) True None, Nb_served,
               Nb_failed (StoreError ''down''), Fire 0] w_test)
     = [(SET ''rq:test:1:lock'' ''tok'' [PX 1000], K_lock_set (JNum 1) K_none)]"
  unfolding overlapped_renewal_run overlapped_renewal_run_fired by simp

text \<open>
  C9: the code at the failing input. \<open>lock\<close> is called for task 1 and for task 2
  before either set is answered; each call finds no timer to clear, and each answer
  \<open>'OK'\<close> arms a timer: two renewal timers are pending, and \<open>lockTimeout\<close> refers to
  the second. \<open>lock\<close> and \<open>unlock\<close> clear only that one: after both locks are
  released the timer of task 1 is still pending, and when it fires the lock key of
  task 1 is set again and its renewal goes on.
\<close>

theorem overlapping_locks_leave_two_timers:
  "timers (run [Call_lock (JNum 1) False None, Call_lock (JNum 2) False None, Nb_served, Nb_served] w_test)
     = [(0, 500, JNum 1), (1, 500, JNum 2)]
   \<and> timers (lock (JNum 3) False None
        (run [Call_lock (JNum 1) False None, Call_lock (JNum 2) False None, Nb_served, Nb_served] w_test))
     = [(0, 500, JNum 1)]
   \<and> timers (run [Call_lock (JNum 1) False None, Call_lock (JNum 2) False None, Nb_served, Nb_served,
        Call_unlock (JNum 1) None, Call_unlock (JNum 2) None, Nb_served, Nb_served] w_test)
     = [(0, 500, JNum 1)]
   \<and> db (run [Call_lock (JNum 1) False None, Call_lock (JNum 2) False None, Nb_served, Nb_served,
        Call_unlock (JNum 1) None, Call_unlock (JNum 2) None, Nb_served, Nb_served] w_test)
        ''rq:test:1:lock'' = None
   \<and> db (run [Call_lock (JNum 1) False None, Call_lock (JNum 2) False None, Nb_served, Nb_served,
        Call_unlock (JNum 1) None, Call_unlock (JNum 2) None, Nb_served, Nb_served,
        Fire 0, Nb_served] w_test) ''rq:test:1:lock'' = Some (RStr ''tok'' (Some 1000))
   \<and> timers (run [Call_lock (JNum 1) False None, Call_lock (JNum 2) False None, Nb_served, Nb_served,
        Call_unlock (JNum 1) None, Call_unlock (JNum 2) None, Nb_served, Nb_served,
        Fire 0, Nb_served] w_test) = [(2, 500, JNum 1)]"
  unfolding two_locks_run two_locks_released_run two_locks_released_run_fired
  by (simp add: lock_timers clearTimeout_def)

text \<open>
  C4: the code at the failing input. The lock of task 1 is acquired and its renewal
  timer fires, so the set of the renewal is outstanding when \<open>unlock\<close> is called:
  \<open>unlock\<close> finds no pending timer to clear. The set is answered \<open>'OK'\<close> and arms a
  new timer; the script then deletes the lock. After the release a renewal timer for
  task 1 is pending; it fires, the renewal sets the lock key again, and the next renewal
  is scheduled.
\<close>

theorem unlock_race_renewal_fires:
  "db (run [Call_lock (JNum 1) False None, Nb_served, Fire 0, Call_unlock (JNum 1) None,
            Nb_served, Nb_served] w_test) ''rq:test:1:lock'' = None
   \<and> timers (run [Call_lock (JNum 1) False None, Nb_served, Fire 0, Call_unlock (JNum 1) None,
            Nb_served, Nb_served] w_test) = [(1, 500, JNum 1)]
   \<and> db (run [Call_lock (JNum 1) False None, Nb_served, Fire 0, Call_unlock (JNum 1) None,
            Nb_served, Nb_served, Fire 1, Nb_served] w_test) ''rq:test:1:lock''
       = Some (RStr ''tok'' (Some 1000))
   \<and> timers (run [Call_lock (JNum 1) False None, Nb_served, Fire 0, Call_unlock (JNum 1) None,
            Nb_served, Nb_served, Fire 1, Nb_served] w_test) = [(2, 500, JNum 1)]"
  unfolding unlock_race_run unlock_race_run_renewed by simp

end
